theory Spec2Isabelle
  imports Main "HOL-Library.Char_ord" "HOL-Library.List_Lexorder" "HOL-Library.Product_Lexorder"
    "HOL-Library.Sublist" "HOL-Library.Multiset"
begin

section \<open>Run-time type information\<close>

text \<open>
  The resolver walks \<open>reflect.Type\<close> values. A type is identified by a number and described
  by an entry of a finite table: its name, its kind, its struct fields (for a struct) and
  its element type (for a pointer). An identifier outside the table denotes an opaque
  unnamed non-struct type.
\<close>

type_synonym tid = nat

datatype kind = KInt | KString | KStruct | KPtr | KOther

text \<open>
  One \<open>reflect.StructField\<close>. \<open>sf_Tag\<close> holds the result of \<open>sf.Tag.Get("sql")\<close>, i.e. the
  value of the \<open>sql\<close> key of the struct tag (empty when the key is absent).
\<close>

record sfield =
  sf_Name :: string
  sf_PkgPath :: string
  sf_Tag :: string
  sf_Anonymous :: bool
  sf_Type :: tid

record rtype =
  t_Name :: string
  t_Kind :: kind
  t_Fields :: "sfield list"
  t_Elem :: tid

type_synonym env = "rtype list"

definition unknownType :: rtype where
  "unknownType = \<lparr>t_Name = '''', t_Kind = KOther, t_Fields = [], t_Elem = 0\<rparr>"

definition rtype_of :: "env \<Rightarrow> tid \<Rightarrow> rtype" where
  "rtype_of env t = (if t < length env then env ! t else unknownType)"

section \<open>Fields and their orderings\<close>

record field =
  ctx :: string
  name :: string
  fname :: string
  tag :: bool
  index :: "nat list"
  ftyp :: tid

text \<open>
  \<open>byIndex.Less\<close>: the loop walks both index sequences in step; the recursion below is on
  the two suffixes that remain at position \<open>k\<close>, so the final length comparison of the
  whole sequences is the comparison of the remaining suffixes.
\<close>

fun byIndex_walk :: "nat list \<Rightarrow> nat list \<Rightarrow> bool" where
  "byIndex_walk [] ys = (ys \<noteq> [])"
| "byIndex_walk (x # xs) [] = False"
| "byIndex_walk (x # xs) (y # ys) = (if x \<noteq> y then x < y else byIndex_walk xs ys)"

definition byIndex_Less :: "field \<Rightarrow> field \<Rightarrow> bool" where
  "byIndex_Less a b = byIndex_walk (index a) (index b)"

definition byName_Less :: "field \<Rightarrow> field \<Rightarrow> bool" where
  "byName_Less a b =
     (if name a \<noteq> name b then name a < name b
      else if length (index a) \<noteq> length (index b) then length (index a) < length (index b)
      else if tag a \<noteq> tag b then tag a
      else byIndex_Less a b)"

text \<open>
  \<open>sort.Sort\<close> orders a slice by its \<open>Less\<close> method and promises nothing about ties. It
  is modelled by insertion sort; lemma \<open>resolveFields_any_sort\<close> below shows that the lists
  sorted by the resolver have no ties between different fields, so that every sorting
  algorithm returns the same lists.
\<close>

fun insort_by :: "('a \<Rightarrow> 'a \<Rightarrow> bool) \<Rightarrow> 'a \<Rightarrow> 'a list \<Rightarrow> 'a list" where
  "insort_by lt x [] = [x]"
| "insort_by lt x (y # ys) = (if lt y x then y # insort_by lt x ys else x # y # ys)"

definition sort_by :: "('a \<Rightarrow> 'a \<Rightarrow> bool) \<Rightarrow> 'a list \<Rightarrow> 'a list" where
  "sort_by lt xs = foldr (insort_by lt) xs []"

section \<open>Tag parsing\<close>

definition parseTag :: "string \<Rightarrow> string \<times> string" where
  "parseTag tg =
     (if CHR '','' \<in> set tg
      then (takeWhile (\<lambda>c. c \<noteq> CHR '','') tg, tl (dropWhile (\<lambda>c. c \<noteq> CHR '','') tg))
      else (tg, ''''))"

section \<open>The field resolver\<close>

text \<open>
  The state of the traversal inside one level: the fields found so far, the anonymous
  structs queued for the next level, and the count of queued names for the next level.
\<close>

type_synonym walk = "field list \<times> field list \<times> (tid \<Rightarrow> nat)"

text \<open>The body of the loop over the struct fields of \<open>f.typ\<close>, for field number \<open>i\<close>.\<close>

definition scanField :: "env \<Rightarrow> field \<Rightarrow> (tid \<Rightarrow> nat) \<Rightarrow> nat \<Rightarrow> sfield \<Rightarrow> walk \<Rightarrow> walk" where
  "scanField env f cnt i sf w =
     (case w of (found, next, nextCount) \<Rightarrow>
        if sf_PkgPath sf \<noteq> '''' then w
        else if sf_Tag sf = ''-'' then w
        else
          let nm = fst (parseTag (sf_Tag sf));
              idx = index f @ [i];
              ft = (if t_Name (rtype_of env (sf_Type sf)) = '''' \<and> t_Kind (rtype_of env (sf_Type sf)) = KPtr
                    then t_Elem (rtype_of env (sf_Type sf)) else sf_Type sf)
          in if nm \<noteq> '''' \<or> \<not> sf_Anonymous sf \<or> t_Kind (rtype_of env ft) \<noteq> KStruct
             then
               let found1 = found @ [\<lparr>ctx = t_Name (rtype_of env (ftyp f)),
                                        name = (if nm = '''' then sf_Name sf else nm),
                                        fname = sf_Name sf, tag = (nm \<noteq> ''''), index = idx, ftyp = ft\<rparr>]
               in (if 1 < cnt (ftyp f) then found1 @ [last found1] else found1, next, nextCount)
             else
               let nextCount1 = nextCount(ft := nextCount ft + 1)
               in (found,
                   if nextCount1 ft = 1
                   then next @ [\<lparr>ctx = '''', name = t_Name (rtype_of env ft), fname = '''',
                                 tag = False, index = idx, ftyp = ft\<rparr>]
                   else next,
                   nextCount1))"

fun scanFields :: "env \<Rightarrow> field \<Rightarrow> (tid \<Rightarrow> nat) \<Rightarrow> nat \<Rightarrow> sfield list \<Rightarrow> walk \<Rightarrow> walk" where
  "scanFields env f cnt i [] w = w"
| "scanFields env f cnt i (sf # sfs) w = scanFields env f cnt (Suc i) sfs (scanField env f cnt i sf w)"

text \<open>The loop over the entries of the current level.\<close>

fun scanLevel :: "env \<Rightarrow> (tid \<Rightarrow> nat) \<Rightarrow> field list \<Rightarrow> (tid \<Rightarrow> bool) \<times> walk \<Rightarrow> (tid \<Rightarrow> bool) \<times> walk" where
  "scanLevel env cnt [] vw = vw"
| "scanLevel env cnt (f # current) (visited, w) =
     (if visited (ftyp f) then scanLevel env cnt current (visited, w)
      else scanLevel env cnt current
             (visited(ftyp f := True),
              scanFields env f cnt 0 (t_Fields (rtype_of env (ftyp f))) w))"

lemma scanField_keeps_next:
  "scanField env f cnt i sf (found, next, nc) = (found', next', nc') \<Longrightarrow> \<exists>zs. next' = next @ zs"
  by (auto simp: scanField_def Let_def split: if_splits)

lemma scanFields_keeps_next:
  "scanFields env f cnt i sfs (found, next, nc) = (found', next', nc') \<Longrightarrow> \<exists>zs. next' = next @ zs"
proof (induction sfs arbitrary: i found "next" nc)
  case Nil
  then show ?case by simp
next
  case (Cons sf sfs)
  obtain f1 n1 c1 where s: "scanField env f cnt i sf (found, next, nc) = (f1, n1, c1)"
    by (cases "scanField env f cnt i sf (found, next, nc)") auto
  from scanField_keeps_next[OF s] obtain zs where "n1 = next @ zs" by blast
  moreover from Cons.IH[of "Suc i" f1 n1 c1] Cons.prems s obtain zs' where "next' = n1 @ zs'"
    by auto
  ultimately show ?case by simp
qed

lemma scanLevel_visited_mono:
  "scanLevel env cnt current (visited, w) = (visited', w') \<Longrightarrow> visited t \<Longrightarrow> visited' t"
  by (induction current arbitrary: visited w) (auto split: if_splits)

lemma scanLevel_progress:
  "scanLevel env cnt current (visited, found, next, nc) = (visited', found', next', nc')
   \<Longrightarrow> next' \<noteq> next \<Longrightarrow> \<exists>t < length env. \<not> visited t \<and> visited' t"
proof (induction current arbitrary: visited found "next" nc)
  case Nil
  then show ?case by simp
next
  case (Cons f current)
  show ?case
  proof (cases "visited (ftyp f)")
    case True
    with Cons show ?thesis by auto
  next
    case False
    obtain f1 n1 c1 where s:
      "scanFields env f cnt 0 (t_Fields (rtype_of env (ftyp f))) (found, next, nc) = (f1, n1, c1)"
      by (cases "scanFields env f cnt 0 (t_Fields (rtype_of env (ftyp f))) (found, next, nc)") auto
    with False Cons.prems have r:
      "scanLevel env cnt current (visited(ftyp f := True), f1, n1, c1) = (visited', found', next', nc')"
      by simp
    show ?thesis
    proof (cases "n1 = next")
      case True
      with Cons.IH[OF r] Cons.prems(2) obtain t where
        "t < length env" "\<not> (visited(ftyp f := True)) t" "visited' t" by auto
      then show ?thesis by (auto split: if_splits)
    next
      case n: False
      have "ftyp f < length env"
      proof (rule ccontr)
        assume "\<not> ftyp f < length env"
        then have "t_Fields (rtype_of env (ftyp f)) = []"
          by (simp add: rtype_of_def unknownType_def)
        with s n show False by simp
      qed
      moreover have "visited' (ftyp f)"
        using scanLevel_visited_mono[OF r, of "ftyp f"] by simp
      ultimately show ?thesis using False by blast
    qed
  qed
qed

lemma loop_measure_decreases:
  assumes r: "scanLevel env nextCount next (visited, found, [], \<lambda>_. 0) = (visited', found', next', nextCount')"
  shows "2 * card {t. t < length env \<and> \<not> visited' t} + (if next' = [] then 0 else 1)
           < 2 * card {t. t < length env \<and> \<not> visited t} + 1"
proof -
  have sub: "{t. t < length env \<and> \<not> visited' t} \<subseteq> {t. t < length env \<and> \<not> visited t}"
    using scanLevel_visited_mono[OF r] by auto
  have fin: "finite {t. t < length env \<and> \<not> visited t}" by simp
  show ?thesis
  proof (cases "next' = []")
    case True
    with card_mono[OF fin sub] show ?thesis by simp
  next
    case False
    with scanLevel_progress[OF r] obtain t where t: "t < length env" "\<not> visited t" "visited' t"
      by auto
    then have "{t. t < length env \<and> \<not> visited' t} \<subset> {t. t < length env \<and> \<not> visited t}"
      using sub by auto
    from psubset_card_mono[OF fin this] False show ?thesis by simp
  qed
qed

text \<open>
  The loop over the levels. It is entered with the queue and the counts of the next level;
  each round swaps them in and starts an empty queue and empty counts.
\<close>

function typeFields_loop ::
  "env \<Rightarrow> field list \<Rightarrow> (tid \<Rightarrow> nat) \<Rightarrow> (tid \<Rightarrow> bool) \<Rightarrow> field list \<Rightarrow> field list" where
  "typeFields_loop env next nextCount visited found =
     (if next = [] then found
      else case scanLevel env nextCount next (visited, found, [], \<lambda>_. 0) of
             (visited', found', next', nextCount') \<Rightarrow>
               typeFields_loop env next' nextCount' visited' found')"
  by pat_completeness auto
termination
proof (relation "measure (\<lambda>(env, next, nextCount, visited, found).
          2 * card {t. t < length env \<and> \<not> visited t} + (if next = [] then 0 else 1))", goal_cases)
  case 1
  show ?case by simp
next
  case (2 env "next" nextCount visited found visited' w found' nw next' nextCount')
  then have "scanLevel env nextCount next (visited, found, [], \<lambda>_. 0) = (visited', found', next', nextCount')"
    by simp
  from loop_measure_decreases[OF this] 2(1) show ?case by simp
qed

text \<open>The candidates: every field found by the traversal, before collisions are removed.\<close>

definition collectFields :: "env \<Rightarrow> tid \<Rightarrow> field list" where
  "collectFields env t =
     typeFields_loop env [\<lparr>ctx = '''', name = '''', fname = '''', tag = False, index = [], ftyp = t\<rparr>]
       (\<lambda>_. 0) (\<lambda>_. False) []"

text \<open>
  The pass that removes fields with annihilating name collisions. \<open>out\<close> shares the backing
  array of \<open>fields\<close>, but it never grows past the position being read, so the loop reads
  the sorted list unchanged.
\<close>

definition collisionStep :: "string \<times> field list \<Rightarrow> field \<Rightarrow> string \<times> field list" where
  "collisionStep st f =
     (case st of (nm, out) \<Rightarrow>
        if name f \<noteq> nm then (name f, out @ [f])
        else if out \<noteq> [] \<and> name (last out) = nm \<and> (\<not> tag (last out) \<or> tag f) then (nm, butlast out)
        else (nm, out))"

fun collisionLoop :: "string \<times> field list \<Rightarrow> field list \<Rightarrow> string \<times> field list" where
  "collisionLoop st [] = st"
| "collisionLoop st (f # fs) = collisionLoop (collisionStep st f) fs"

definition removeCollisions :: "field list \<Rightarrow> field list" where
  "removeCollisions found = snd (collisionLoop ('''', []) found)"

definition resolveFields :: "env \<Rightarrow> tid \<Rightarrow> field list" where
  "resolveFields env t =
     sort_by byIndex_Less (removeCollisions (sort_by byName_Less (collectFields env t)))"

text \<open>
  \<open>typeFields\<close>. \<open>NumField\<close> panics on a type that is not a struct; only the root can be one,
  since a type is queued only when its kind is \<open>Struct\<close> (lemma \<open>scanLevel_queue_kind\<close>
  below), so the check is made once, on the root.
\<close>

datatype panic =
  NumFieldOfNonStruct | DestNotPointerToStruct | TypeOfZeroValue | ElemOfNonPointer | FieldByIndexPanic

definition typeFields :: "env \<Rightarrow> tid \<Rightarrow> panic + field list" where
  "typeFields env t =
     (if t_Kind (rtype_of env t) \<noteq> KStruct then Inl NumFieldOfNonStruct
      else Inr (resolveFields env t))"

section \<open>Memory, values and the row source\<close>

text \<open>
  Memory is a list of variables. An address is a variable together with the path of field
  numbers to one of its parts, so a pointer points at a whole variable or at a field
  inside one (as \<open>&r.F\<close> does), and two pointers may have the same pointee. A struct holds
  its fields in place, in declaration order; a pointer is nil (\<open>VPtr None\<close>) or an address.
\<close>

type_synonym addr = "nat \<times> nat list"

datatype val = VInt int | VStr string | VStruct "val list" | VPtr "addr option" | VOther

type_synonym heap = "val list"

text \<open>The part of a value at a path of field numbers, and the value with that part replaced.\<close>

fun subval :: "val \<Rightarrow> nat list \<Rightarrow> val option" where
  "subval v [] = Some v"
| "subval v (x # xs) =
     (case v of VStruct vs \<Rightarrow> (if x < length vs then subval (vs ! x) xs else None) | _ \<Rightarrow> None)"

fun updval :: "val \<Rightarrow> nat list \<Rightarrow> val \<Rightarrow> val" where
  "updval v [] w = w"
| "updval v (x # xs) w =
     (case v of VStruct vs \<Rightarrow> (if x < length vs then VStruct (vs[x := updval (vs ! x) xs w]) else v)
      | _ \<Rightarrow> v)"

text \<open>Reading and writing through an address; an address that names nothing reads as \<open>None\<close>.\<close>

definition load :: "heap \<Rightarrow> addr \<Rightarrow> val option" where
  "load h a = (if fst a < length h then subval (h ! fst a) (snd a) else None)"

definition store :: "heap \<Rightarrow> addr \<Rightarrow> val \<Rightarrow> heap" where
  "store h a w = (if fst a < length h then h[fst a := updval (h ! fst a) (snd a) w] else h)"

text \<open>An \<open>interface{}\<close> argument: nil, or a dynamic type with a value.\<close>

datatype iface = NilInterface | Iface tid val

text \<open>
  A scan target handed to the row source: the address of a destination field
  (\<open>Addr().Interface()\<close>), or a fresh \<open>sql.RawBytes\<close> that is dropped.
\<close>

datatype target = FieldAddr addr | Discard

text \<open>
  The \<open>Rows\<close> interface, for one call of each method. \<open>Columns\<close> returns the names and an
  error. \<open>Scan\<close> receives the targets and can reach the destination through them only: it
  answers with the value it stores through each target (if any) and an error.
\<close>

record 'e rows =
  rows_Columns :: "string list \<times> 'e option"
  rows_Scan :: "target list \<Rightarrow> val option list \<times> 'e option"

text \<open>
  \<open>reflect.Value.Elem\<close> of a pointer value: the variable it points at, as an addressable
  \<open>Value\<close>, where \<open>None\<close> is the zero \<open>Value\<close> that a nil pointer gives; it panics on a value
  that is not a pointer.
\<close>

definition Elem :: "val \<Rightarrow> panic + addr option" where
  "Elem v = (case v of VPtr p \<Rightarrow> Inr p | _ \<Rightarrow> Inl ElemOfNonPointer)"

text \<open>\<open>reflect.Value.Field\<close> of an addressable struct: the field, in place; \<open>None\<close> is a panic.\<close>

definition Field :: "heap \<Rightarrow> addr \<Rightarrow> nat \<Rightarrow> addr option" where
  "Field h a i =
     (case load h a of
        Some (VStruct vs) \<Rightarrow> (if i < length vs then Some (fst a, snd a @ [i]) else None)
      | _ \<Rightarrow> None)"

text \<open>
  \<open>reflect.Value.FieldByIndex\<close>: from the second index on, a pointer to a struct is
  followed first, and a nil one panics.
\<close>

fun fieldWalk :: "heap \<Rightarrow> bool \<Rightarrow> addr \<Rightarrow> nat list \<Rightarrow> addr option" where
  "fieldWalk h later a [] = Some a"
| "fieldWalk h later a (x # xs) =
     (case (if later then (case load h a of Some (VPtr p) \<Rightarrow> p | _ \<Rightarrow> Some a) else Some a) of
        None \<Rightarrow> None
      | Some s \<Rightarrow> (case Field h s x of None \<Rightarrow> None | Some u \<Rightarrow> fieldWalk h True u xs))"

definition FieldByIndex :: "heap \<Rightarrow> addr option \<Rightarrow> nat list \<Rightarrow> addr option" where
  "FieldByIndex h elem idx =
     (case elem of
        None \<Rightarrow> None
      | Some a \<Rightarrow> (case load h a of Some (VStruct vs) \<Rightarrow> fieldWalk h False a idx | _ \<Rightarrow> None))"

text \<open>
  The stores of the row source's \<open>Scan\<close>, in the order of the targets: each goes through
  the address it was given, whatever else that memory is part of.
\<close>

fun applyWrites :: "heap \<Rightarrow> target list \<Rightarrow> val option list \<Rightarrow> heap" where
  "applyWrites h (FieldAddr a # ts) (Some w # ws) = applyWrites (store h a w) ts ws"
| "applyWrites h (t # ts) (w # ws) = applyWrites h ts ws"
| "applyWrites h ts ws = h"

section \<open>The row mapper\<close>

definition ColName :: "field \<Rightarrow> string" where
  \<open>ColName f =
     (if name f \<noteq> fname f
      then ''"'' @ ctx f @ ''"."'' @ fname f @ ''" as "'' @ name f @ ''"''
      else ''"'' @ ctx f @ ''"."'' @ name f @ ''"'')\<close>

definition columns :: "field list \<Rightarrow> string list" where
  "columns found = map ColName found"

text \<open>The name-to-field map built at the start of \<open>scan\<close>; a later field replaces an earlier one.\<close>

fun buildInfos :: "field list \<Rightarrow> (string \<rightharpoonup> field) \<Rightarrow> (string \<rightharpoonup> field)" where
  "buildInfos [] m = m"
| "buildInfos (f # fs) m = buildInfos fs (m(name f \<mapsto> f))"

text \<open>
  The loop over the reported columns: the targets in column order and the lines printed
  for columns without a field.
\<close>

fun bindColumns ::
  "(string \<rightharpoonup> field) \<Rightarrow> heap \<Rightarrow> addr option \<Rightarrow> string list \<Rightarrow> panic + (target list \<times> string list)" where
  "bindColumns finfos h elem [] = Inr ([], [])"
| "bindColumns finfos h elem (c # cols) =
     (case finfos c of
        None \<Rightarrow>
          (case bindColumns finfos h elem cols of
             Inl p \<Rightarrow> Inl p
           | Inr (ts, printed) \<Rightarrow> Inr (Discard # ts, (''sqlstruct: no field for '' @ c) # printed))
      | Some fi \<Rightarrow>
          (case FieldByIndex h elem (index fi) of
             None \<Rightarrow> Inl FieldByIndexPanic
           | Some u \<Rightarrow>
               (case bindColumns finfos h elem cols of
                  Inl p \<Rightarrow> Inl p
                | Inr (ts, printed) \<Rightarrow> Inr (FieldAddr u # ts, printed))))"

text \<open>
  \<open>scan\<close> returns the error (or nil); its effects are the memory after the stores and the
  lines printed.
\<close>

definition scan :: "heap \<Rightarrow> val \<Rightarrow> field list \<Rightarrow> 'e rows \<Rightarrow> panic + ('e option \<times> heap \<times> string list)" where
  "scan h destv found rows =
     (let finfos = buildInfos found Map.empty
      in case Elem destv of
           Inl p \<Rightarrow> Inl p
         | Inr elem \<Rightarrow>
             (case rows_Columns rows of
                (cols, Some err) \<Rightarrow> Inr (Some err, h, [])
              | (cols, None) \<Rightarrow>
                  (case bindColumns finfos h elem cols of
                     Inl p \<Rightarrow> Inl p
                   | Inr (vals, printed) \<Rightarrow>
                       (case rows_Scan rows vals of
                          (writes, err) \<Rightarrow> Inr (err, applyWrites h vals writes, printed)))))"

definition Scan :: "env \<Rightarrow> heap \<Rightarrow> iface \<Rightarrow> 'e rows \<Rightarrow> panic + ('e option \<times> heap \<times> string list)" where
  "Scan env h dest rows =
     (case dest of
        NilInterface \<Rightarrow> Inl TypeOfZeroValue
      | Iface ty destv \<Rightarrow>
          if t_Kind (rtype_of env ty) \<noteq> KPtr \<or> t_Kind (rtype_of env (t_Elem (rtype_of env ty))) \<noteq> KStruct
          then Inl DestNotPointerToStruct
          else (case typeFields env (t_Elem (rtype_of env ty)) of
                  Inl p \<Rightarrow> Inl p
                | Inr found \<Rightarrow> scan h destv found rows))"

section \<open>The session\<close>

type_synonym Session = "tid \<rightharpoonup> field list"

definition NewSession :: Session where
  "NewSession = Map.empty"

text \<open>
  The lookup that \<open>Session.Scan\<close> and \<open>Session.Columns\<close> both start with: the stored field
  list of the type if there is one, else the resolver's, which is stored.
\<close>

definition Session_fields :: "env \<Rightarrow> Session \<Rightarrow> tid \<Rightarrow> (panic + field list) \<times> Session" where
  "Session_fields env s valtyp =
     (case s valtyp of
        Some found \<Rightarrow> (Inr found, s)
      | None \<Rightarrow>
          (case typeFields env valtyp of
             Inl p \<Rightarrow> (Inl p, s)
           | Inr found \<Rightarrow> (Inr found, s(valtyp \<mapsto> found))))"

definition Session_Scan ::
  "env \<Rightarrow> Session \<Rightarrow> heap \<Rightarrow> iface \<Rightarrow> 'e rows
     \<Rightarrow> (panic + ('e option \<times> heap \<times> string list)) \<times> Session" where
  "Session_Scan env s h dest rows =
     (case dest of
        NilInterface \<Rightarrow> (Inl TypeOfZeroValue, s)
      | Iface ty destv \<Rightarrow>
          if t_Kind (rtype_of env ty) \<noteq> KPtr \<or> t_Kind (rtype_of env (t_Elem (rtype_of env ty))) \<noteq> KStruct
          then (Inl DestNotPointerToStruct, s)
          else (case Session_fields env s (t_Elem (rtype_of env ty)) of
                  (Inl p, s') \<Rightarrow> (Inl p, s')
                | (Inr found, s') \<Rightarrow> (scan h destv found rows, s')))"

definition Session_Columns :: "env \<Rightarrow> Session \<Rightarrow> iface \<Rightarrow> (panic + string list) \<times> Session" where
  "Session_Columns env s d =
     (case d of
        NilInterface \<Rightarrow> (Inl TypeOfZeroValue, s)
      | Iface ty v \<Rightarrow>
          (case Session_fields env s ty of
             (Inl p, s') \<Rightarrow> (Inl p, s')
           | (Inr found, s') \<Rightarrow> (Inr (columns found), s')))"

section \<open>The orderings as keys\<close>

text \<open>
  Both \<open>Less\<close> methods are strict linear orders given by a key, so the sorts are the
  library's \<open>sort_key\<close>. Two fields that \<open>byName.Less\<close> does not separate have the same name,
  tag flag and index.
\<close>

lemma byIndex_walk_less: "byIndex_walk xs ys \<longleftrightarrow> xs < ys"
proof (induction xs ys rule: byIndex_walk.induct)
  case (1 ys)
  then show ?case by (cases ys) auto
qed auto

definition byName_key :: "field \<Rightarrow> string \<times> nat \<times> bool \<times> nat list" where
  "byName_key f = (name f, length (index f), \<not> tag f, index f)"

lemma byName_Less_key: "byName_Less a b \<longleftrightarrow> byName_key a < byName_key b"
  by (auto simp: byName_Less_def byName_key_def byIndex_Less_def byIndex_walk_less)

lemma insort_by_key:
  assumes "\<And>a b. lt a b \<longleftrightarrow> key a < key b"
  shows "insort_by lt x ys = insort_key key x ys"
  by (induction ys) (auto simp: assms not_less)

lemma sort_by_key:
  assumes "\<And>a b. lt a b \<longleftrightarrow> key a < key b"
  shows "sort_by lt xs = sort_key key xs"
  by (induction xs) (auto simp: sort_by_def sort_key_def insort_by_key[OF assms])

lemma sort_byName: "sort_by byName_Less xs = sort_key byName_key xs"
  by (rule sort_by_key) (rule byName_Less_key)

lemma sort_byIndex: "sort_by byIndex_Less xs = sort_key index xs"
  by (rule sort_by_key) (simp add: byIndex_Less_def byIndex_walk_less)

lemma sorted_names_byName: "sorted (map name (sort_key byName_key xs))"
proof -
  have "sorted (map byName_key (sort_key byName_key xs))" by (rule sorted_sort_key)
  then have "sorted_wrt (\<lambda>a b. byName_key a \<le> byName_key b) (sort_key byName_key xs)"
    by (simp add: sorted_map)
  then have "sorted_wrt (\<lambda>a b. name a \<le> name b) (sort_key byName_key xs)"
    by (rule sorted_wrt_mono_rel[rotated]) (auto simp: byName_key_def less_eq_prod_def)
  then show ?thesis by (simp add: sorted_map)
qed

fun survivor :: "field list \<Rightarrow> field list" where
  "survivor [] = []"
| "survivor (a # rest) = (if rest = [] \<or> (tag a \<and> (\<forall>g\<in>set rest. \<not> tag g)) then [a] else [])"

lemma collisionLoop_append:
  "collisionLoop st (xs @ ys) = collisionLoop (collisionLoop st xs) ys"
  by (induction xs arbitrary: st) auto

lemma collisionLoop_run_tail:
  "\<forall>f\<in>set rest. name f = x \<Longrightarrow> out = [] \<or> name (last out) \<noteq> x
   \<Longrightarrow> collisionLoop (x, out) rest = (x, out)"
  by (induction rest) (auto simp: collisionStep_def)

lemma collisionLoop_run_head:
  "\<forall>f\<in>set rest. name f = x \<Longrightarrow> name a = x \<Longrightarrow> out = [] \<or> name (last out) \<noteq> x
   \<Longrightarrow> collisionLoop (x, out @ [a]) rest = (x, out @ survivor (a # rest))"
proof (induction rest)
  case Nil
  then show ?case by simp
next
  case (Cons f fs)
  show ?case
  proof (cases "\<not> tag a \<or> tag f")
    case True
    with Cons.prems have "collisionStep (x, out @ [a]) f = (x, out)"
      by (simp add: collisionStep_def)
    moreover have "collisionLoop (x, out) fs = (x, out)"
      using Cons.prems by (intro collisionLoop_run_tail) auto
    ultimately show ?thesis using True by auto
  next
    case False
    with Cons.prems have "collisionStep (x, out @ [a]) f = (x, out @ [a])"
      by (simp add: collisionStep_def)
    moreover have "collisionLoop (x, out @ [a]) fs = (x, out @ survivor (a # fs))"
      using Cons by auto
    ultimately show ?thesis using False by auto
  qed
qed

lemma collisionLoop_run:
  assumes "\<forall>f\<in>set run. name f = x" "nm \<noteq> x" "out = [] \<or> name (last out) \<noteq> x"
  shows "snd (collisionLoop (nm, out) run) = out @ survivor run"
proof (cases run)
  case Nil
  then show ?thesis by simp
next
  case (Cons a rest)
  with assms have "collisionStep (nm, out) a = (x, out @ [a])"
    by (simp add: collisionStep_def)
  with Cons assms collisionLoop_run_head[of rest x a out] show ?thesis by simp
qed

lemma collisionLoop_other_names:
  "\<forall>f\<in>set ys. name f \<noteq> x
   \<Longrightarrow> filter (\<lambda>f. name f = x) (snd (collisionLoop (nm, out) ys)) = filter (\<lambda>f. name f = x) out"
proof (induction ys arbitrary: nm out)
  case Nil
  then show ?case by simp
next
  case (Cons f fs)
  obtain nm1 out1 where s: "collisionStep (nm, out) f = (nm1, out1)"
    by (cases "collisionStep (nm, out) f") auto
  have "filter (\<lambda>f. name f = x) out1 = filter (\<lambda>f. name f = x) out"
  proof (cases "out = []")
    case True
    with s Cons.prems show ?thesis by (auto simp: collisionStep_def split: if_splits)
  next
    case False
    then have "out = butlast out @ [last out]" by simp
    then have "filter (\<lambda>f. name f = x) out
        = filter (\<lambda>f. name f = x) (butlast out) @ filter (\<lambda>f. name f = x) [last out]"
      by (metis filter_append)
    with s Cons.prems show ?thesis by (auto simp: collisionStep_def split: if_splits)
  qed
  with Cons.IH[of nm1 out1] Cons.prems s show ?case by simp
qed

lemma collisionLoop_current_name:
  "fst (collisionLoop (nm, out) ys) \<in> insert nm (name ` set ys)"
proof (induction ys arbitrary: nm out)
  case Nil
  then show ?case by simp
next
  case (Cons f fs)
  obtain nm1 out1 where s: "collisionStep (nm, out) f = (nm1, out1)"
    by (cases "collisionStep (nm, out) f") auto
  then have "nm1 = nm \<or> nm1 = name f" by (auto simp: collisionStep_def split: if_splits)
  with Cons.IH[of nm1 out1] s show ?case by auto
qed

lemma sorted_names_split:
  "sorted (map name xs)
   \<Longrightarrow> xs = filter (\<lambda>f. name f < x) xs @ filter (\<lambda>f. name f = x) xs @ filter (\<lambda>f. x < name f) xs"
proof (induction xs)
  case Nil
  then show ?case by simp
next
  case (Cons a xs)
  then have le: "\<forall>f\<in>set xs. name a \<le> name f" and IH: "xs = filter (\<lambda>f. name f < x) xs @ filter (\<lambda>f. name f = x) xs @ filter (\<lambda>f. x < name f) xs"
    by auto
  consider "name a < x" | "name a = x" | "x < name a" by (meson less_linear)
  then show ?case
  proof cases
    case 1
    with IH show ?thesis by auto
  next
    case 2
    with le have "filter (\<lambda>f. name f < x) xs = []" by (auto simp: filter_empty_conv)
    with 2 IH show ?thesis by auto
  next
    case 3
    with le have "filter (\<lambda>f. name f < x) xs = []" "filter (\<lambda>f. name f = x) xs = []"
      by (auto simp: filter_empty_conv)
    with 3 IH show ?thesis by auto
  qed
qed

lemma survivor_subset: "set (survivor run) \<subseteq> set run"
  by (cases run) auto

lemma survivor_length: "length (survivor run) \<le> Suc 0"
  by (cases run) auto

lemma removeCollisions_name:
  assumes "sorted (map name xs)"
  shows "filter (\<lambda>f. name f = x) (removeCollisions xs)
         = (if x = '''' then [] else survivor (filter (\<lambda>f. name f = x) xs))"
proof -
  define A where "A = filter (\<lambda>f. name f < x) xs"
  define R where "R = filter (\<lambda>f. name f = x) xs"
  define B where "B = filter (\<lambda>f. x < name f) xs"
  have xs: "xs = A @ R @ B" unfolding A_def R_def B_def by (rule sorted_names_split[OF assms])
  obtain nm1 out1 where s1: "collisionLoop ('''', []) A = (nm1, out1)"
    by (cases "collisionLoop ('''', []) A") auto
  have A: "\<forall>f\<in>set A. name f \<noteq> x" and B: "\<forall>f\<in>set B. name f \<noteq> x" and R: "\<forall>f\<in>set R. name f = x"
    by (auto simp: A_def B_def R_def)
  have out1: "filter (\<lambda>f. name f = x) out1 = []"
    using collisionLoop_other_names[OF A, of "''''" "[]"] s1 by simp
  then have last1: "out1 = [] \<or> name (last out1) \<noteq> x"
    by (metis (mono_tags, lifting) filter_empty_conv last_in_set)
  have res: "removeCollisions xs = snd (collisionLoop (collisionLoop (nm1, out1) R) B)"
    by (simp add: removeCollisions_def xs collisionLoop_append s1)
  show ?thesis
  proof (cases "x = ''''")
    case True
    have "A = []" by (simp add: A_def True)
    with s1 have "nm1 = ''''" "out1 = []" by auto
    with collisionLoop_run_tail[OF R, of "[]"] True have "collisionLoop (nm1, out1) R = ('''', [])"
      by simp
    with res collisionLoop_other_names[OF B, of "''''" "[]"] True show ?thesis by simp
  next
    case False
    have "nm1 \<in> insert '''' (name ` set A)"
      using collisionLoop_current_name[of "''''" "[]" A] s1 by simp
    with A False have nm1: "nm1 \<noteq> x" by auto
    obtain nm2 out2 where s2: "collisionLoop (nm1, out1) R = (nm2, out2)"
      by (cases "collisionLoop (nm1, out1) R") auto
    have out2: "out2 = out1 @ survivor R"
      using collisionLoop_run[OF R nm1 last1] s2 by simp
    have "filter (\<lambda>f. name f = x) (survivor R) = survivor R"
      using survivor_subset[of R] R by (auto simp: filter_id_conv)
    with out1 out2 have "filter (\<lambda>f. name f = x) out2 = survivor R" by simp
    with res s2 collisionLoop_other_names[OF B, of nm2 out2] False show ?thesis
      by (simp add: R_def)
  qed
qed

lemma sort_key_short: "length xs \<le> Suc 0 \<Longrightarrow> sort_key k xs = xs"
  by (cases xs) auto

lemma resolveFields_name:
  "filter (\<lambda>f. name f = x) (resolveFields env t)
   = (if x = '''' then [] else survivor (sort_key byName_key (filter (\<lambda>f. name f = x) (collectFields env t))))"
proof -
  let ?S = "sort_key byName_key (collectFields env t)"
  have "filter (\<lambda>f. name f = x) (resolveFields env t)
        = sort_key index (filter (\<lambda>f. name f = x) (removeCollisions ?S))"
    by (simp add: resolveFields_def sort_byName sort_byIndex filter_sort)
  also have "filter (\<lambda>f. name f = x) (removeCollisions ?S)
        = (if x = '''' then [] else survivor (filter (\<lambda>f. name f = x) ?S))"
    by (rule removeCollisions_name) (rule sorted_names_byName)
  also have "sort_key index \<dots> = (if x = '''' then [] else survivor (filter (\<lambda>f. name f = x) ?S))"
    by (rule sort_key_short) (simp add: survivor_length)
  finally show ?thesis by (simp add: filter_sort)
qed

lemma distinct_names_if_short:
  "(\<And>x. length (filter (\<lambda>f. name f = x) ys) \<le> Suc 0) \<Longrightarrow> distinct (map name ys)"
proof (induction ys)
  case Nil
  then show ?case by simp
next
  case (Cons a ys)
  have "\<And>x. length (filter (\<lambda>f. name f = x) ys) \<le> Suc 0"
  proof -
    fix x
    from Cons.prems[of x] show "length (filter (\<lambda>f. name f = x) ys) \<le> Suc 0"
      by (simp split: if_splits)
  qed
  then have "distinct (map name ys)" by (rule Cons.IH)
  moreover have "name a \<notin> name ` set ys"
  proof
    assume "name a \<in> name ` set ys"
    then have "filter (\<lambda>f. name f = name a) ys \<noteq> []" by (auto simp: filter_empty_conv)
    then have "0 < length (filter (\<lambda>f. name f = name a) ys)" by simp
    with Cons.prems[of "name a"] show False by simp
  qed
  ultimately show ?case by simp
qed

lemma sorted_depth_split:
  "sorted (map k xs) \<Longrightarrow> \<forall>a\<in>set xs. \<forall>b\<in>set xs. P a \<and> \<not> P b \<longrightarrow> k a < k b
   \<Longrightarrow> xs = filter P xs @ filter (\<lambda>f. \<not> P f) xs"
proof (induction xs)
  case Nil
  then show ?case by simp
next
  case (Cons a xs)
  then have IH: "xs = filter P xs @ filter (\<lambda>f. \<not> P f) xs" by auto
  show ?case
  proof (cases "P a")
    case True
    with IH show ?thesis by simp
  next
    case False
    have "filter P xs = []"
    proof (rule ccontr)
      assume "filter P xs \<noteq> []"
      then obtain b where b: "b \<in> set xs" "P b" by (auto simp: filter_empty_conv)
      with Cons.prems(2) False have "k b < k a" by auto
      moreover from Cons.prems(1) b have "k a \<le> k b" by auto
      ultimately show False by simp
    qed
    with False IH show ?thesis by simp
  qed
qed


lemma survivor_tagged_first:
  "tag a \<Longrightarrow> \<forall>g\<in>set rest. \<not> tag g \<Longrightarrow> survivor (a # rest) = [a]"
  by simp

section \<open>What the traversal collects\<close>

text \<open>
  A struct field that is exported and not excluded is either recorded as a field or queued
  as an anonymous struct. The traversal keeps the index paths of its queue distinct and of
  one length, and no recorded path is a prefix of another recorded or queued path.
\<close>

definition fieldElemType :: "env \<Rightarrow> sfield \<Rightarrow> tid" where
  "fieldElemType env sf =
     (if t_Name (rtype_of env (sf_Type sf)) = '''' \<and> t_Kind (rtype_of env (sf_Type sf)) = KPtr
      then t_Elem (rtype_of env (sf_Type sf)) else sf_Type sf)"

definition considered :: "sfield \<Rightarrow> bool" where
  "considered sf \<longleftrightarrow> sf_PkgPath sf = '''' \<and> sf_Tag sf \<noteq> ''-''"

definition recorded :: "env \<Rightarrow> sfield \<Rightarrow> bool" where
  "recorded env sf \<longleftrightarrow>
     fst (parseTag (sf_Tag sf)) \<noteq> '''' \<or> \<not> sf_Anonymous sf
       \<or> t_Kind (rtype_of env (fieldElemType env sf)) \<noteq> KStruct"

definition leafField :: "env \<Rightarrow> field \<Rightarrow> nat \<Rightarrow> sfield \<Rightarrow> field" where
  "leafField env c i sf =
     \<lparr>ctx = t_Name (rtype_of env (ftyp c)),
      name = (if fst (parseTag (sf_Tag sf)) = '''' then sf_Name sf else fst (parseTag (sf_Tag sf))),
      fname = sf_Name sf, tag = (fst (parseTag (sf_Tag sf)) \<noteq> ''''), index = index c @ [i],
      ftyp = fieldElemType env sf\<rparr>"

lemma scanField_cases:
  assumes "scanField env c cnt i sf (found, next, nc) = (found', next', nc')"
  shows "(found' = found \<and> next' = next)
       \<or> (considered sf \<and> recorded env sf \<and> next' = next
            \<and> (found' = found @ [leafField env c i sf]
                 \<or> found' = found @ [leafField env c i sf, leafField env c i sf]))
       \<or> (considered sf \<and> \<not> recorded env sf \<and> found' = found
            \<and> (\<exists>e. next' = next @ [e] \<and> index e = index c @ [i]))"
  using assms
  by (auto simp: scanField_def Let_def considered_def recorded_def leafField_def fieldElemType_def
           split: if_splits)

lemma leafField_simps [simp]:
  "index (leafField env c i sf) = index c @ [i]"
  "tag (leafField env c i sf) \<Longrightarrow> name (leafField env c i sf) \<noteq> ''''"
  "ctx (leafField env c i sf) = t_Name (rtype_of env (ftyp c))"
  by (simp_all add: leafField_def)

definition madeAt :: "env \<Rightarrow> field \<Rightarrow> field \<Rightarrow> bool" where
  "madeAt env c f \<longleftrightarrow>
     (\<exists>i<length (t_Fields (rtype_of env (ftyp c))).
        considered (t_Fields (rtype_of env (ftyp c)) ! i)
        \<and> recorded env (t_Fields (rtype_of env (ftyp c)) ! i)
        \<and> f = leafField env c i (t_Fields (rtype_of env (ftyp c)) ! i))"

definition queuedAt :: "env \<Rightarrow> field \<Rightarrow> field \<Rightarrow> bool" where
  "queuedAt env c e \<longleftrightarrow>
     (\<exists>i<length (t_Fields (rtype_of env (ftyp c))).
        considered (t_Fields (rtype_of env (ftyp c)) ! i)
        \<and> \<not> recorded env (t_Fields (rtype_of env (ftyp c)) ! i)
        \<and> index e = index c @ [i])"

lemma scanFields_result:
  "scanFields env c cnt k sfs (found, next, nc) = (found', next', nc') \<Longrightarrow>
   \<exists>newf newn. found' = found @ newf \<and> next' = next @ newn
     \<and> (\<forall>f\<in>set newf. \<exists>j<length sfs. considered (sfs ! j) \<and> recorded env (sfs ! j)
                         \<and> f = leafField env c (k + j) (sfs ! j))
     \<and> (\<forall>e\<in>set newn. \<exists>j<length sfs. considered (sfs ! j) \<and> \<not> recorded env (sfs ! j)
                         \<and> index e = index c @ [k + j])
     \<and> distinct (map index newn)"
proof (induction sfs arbitrary: k found "next" nc)
  case Nil
  then show ?case by simp
next
  case (Cons sf sfs)
  obtain f1 n1 c1 where s: "scanField env c cnt k sf (found, next, nc) = (f1, n1, c1)"
    by (cases "scanField env c cnt k sf (found, next, nc)") auto
  with Cons.prems have r: "scanFields env c cnt (Suc k) sfs (f1, n1, c1) = (found', next', nc')"
    by simp
  from Cons.IH[OF r] obtain newf newn where
    IH: "found' = f1 @ newf" "next' = n1 @ newn"
      "\<forall>f\<in>set newf. \<exists>j<length sfs. considered (sfs ! j) \<and> recorded env (sfs ! j)
                         \<and> f = leafField env c (Suc k + j) (sfs ! j)"
      "\<forall>e\<in>set newn. \<exists>j<length sfs. considered (sfs ! j) \<and> \<not> recorded env (sfs ! j)
                         \<and> index e = index c @ [Suc k + j]"
      "distinct (map index newn)"
    by blast
  have later_f: "\<forall>f\<in>set newf. \<exists>j<length (sf # sfs). considered ((sf # sfs) ! j)
        \<and> recorded env ((sf # sfs) ! j) \<and> f = leafField env c (k + j) ((sf # sfs) ! j)"
  proof
    fix f assume "f \<in> set newf"
    with IH(3) obtain j where "j < length sfs" "considered (sfs ! j)" "recorded env (sfs ! j)"
      "f = leafField env c (Suc k + j) (sfs ! j)" by blast
    then show "\<exists>j<length (sf # sfs). considered ((sf # sfs) ! j)
        \<and> recorded env ((sf # sfs) ! j) \<and> f = leafField env c (k + j) ((sf # sfs) ! j)"
      by (intro exI[of _ "Suc j"]) simp
  qed
  have later_n: "\<forall>e\<in>set newn. \<exists>j<length (sf # sfs). considered ((sf # sfs) ! j)
        \<and> \<not> recorded env ((sf # sfs) ! j) \<and> index e = index c @ [k + j]"
  proof
    fix e assume "e \<in> set newn"
    with IH(4) obtain j where "j < length sfs" "considered (sfs ! j)" "\<not> recorded env (sfs ! j)"
      "index e = index c @ [Suc k + j]" by blast
    then show "\<exists>j<length (sf # sfs). considered ((sf # sfs) ! j)
        \<and> \<not> recorded env ((sf # sfs) ! j) \<and> index e = index c @ [k + j]"
      by (intro exI[of _ "Suc j"]) simp
  qed
  have later_idx: "\<forall>e\<in>set newn. index e \<noteq> index c @ [k]"
    using IH(4) by auto
  from scanField_cases[OF s] consider
      (skip) "f1 = found" "n1 = next"
    | (leaf) "considered sf" "recorded env sf" "n1 = next"
        "f1 = found @ [leafField env c k sf] \<or> f1 = found @ [leafField env c k sf, leafField env c k sf]"
    | (embed) e where "considered sf" "\<not> recorded env sf" "f1 = found" "n1 = next @ [e]"
        "index e = index c @ [k]"
    by blast
  then show ?case
  proof cases
    case skip
    with IH later_f later_n show ?thesis by blast
  next
    case leaf
    from leaf(4) obtain pre where pre: "f1 = found @ pre" "set pre = {leafField env c k sf}"
      by auto
    have "\<forall>f\<in>set (pre @ newf). \<exists>j<length (sf # sfs). considered ((sf # sfs) ! j)
        \<and> recorded env ((sf # sfs) ! j) \<and> f = leafField env c (k + j) ((sf # sfs) ! j)"
    proof
      fix f assume "f \<in> set (pre @ newf)"
      then consider "f = leafField env c k sf" | "f \<in> set newf" using pre(2) by auto
      then show "\<exists>j<length (sf # sfs). considered ((sf # sfs) ! j)
        \<and> recorded env ((sf # sfs) ! j) \<and> f = leafField env c (k + j) ((sf # sfs) ! j)"
      proof cases
        case 1
        with leaf(1,2) show ?thesis by (intro exI[of _ 0]) simp
      next
        case 2
        with later_f show ?thesis by blast
      qed
    qed
    moreover have "found' = found @ (pre @ newf)" using IH(1) pre(1) by simp
    moreover have "next' = next @ newn" using IH(2) leaf(3) by simp
    ultimately show ?thesis using later_n IH(5) by blast
  next
    case embed
    have "\<forall>x\<in>set (e # newn). \<exists>j<length (sf # sfs). considered ((sf # sfs) ! j)
        \<and> \<not> recorded env ((sf # sfs) ! j) \<and> index x = index c @ [k + j]"
    proof
      fix x assume "x \<in> set (e # newn)"
      then consider "x = e" | "x \<in> set newn" by auto
      then show "\<exists>j<length (sf # sfs). considered ((sf # sfs) ! j)
        \<and> \<not> recorded env ((sf # sfs) ! j) \<and> index x = index c @ [k + j]"
      proof cases
        case 1
        with embed show ?thesis by (intro exI[of _ 0]) simp
      next
        case 2
        with later_n show ?thesis by blast
      qed
    qed
    moreover have "distinct (map index (e # newn))"
      using IH(5) later_idx embed(5) by auto
    moreover have "found' = found @ newf" using IH(1) embed(3) by simp
    moreover have "next' = next @ (e # newn)" using IH(2) embed(4) by simp
    ultimately show ?thesis using later_f by blast
  qed
qed

lemma scanLevel_result:
  "scanLevel env cnt cur (visited, found, next, nc) = (visited', found', next', nc')
   \<Longrightarrow> distinct (map index cur) \<Longrightarrow>
   \<exists>newf newn. found' = found @ newf \<and> next' = next @ newn
     \<and> (\<forall>f\<in>set newf. \<exists>c\<in>set cur. madeAt env c f)
     \<and> (\<forall>e\<in>set newn. \<exists>c\<in>set cur. queuedAt env c e)
     \<and> distinct (map index newn)"
proof (induction cur arbitrary: visited found "next" nc)
  case Nil
  then show ?case by simp
next
  case (Cons c cur)
  from Cons.prems(2) have dc: "distinct (map index cur)" and fresh: "index c \<notin> index ` set cur"
    by auto
  show ?case
  proof (cases "visited (ftyp c)")
    case True
    with Cons.prems have "scanLevel env cnt cur (visited, found, next, nc) = (visited', found', next', nc')"
      by simp
    from Cons.IH[OF this dc] show ?thesis by auto
  next
    case False
    obtain f1 n1 c1 where s:
      "scanFields env c cnt 0 (t_Fields (rtype_of env (ftyp c))) (found, next, nc) = (f1, n1, c1)"
      by (cases "scanFields env c cnt 0 (t_Fields (rtype_of env (ftyp c))) (found, next, nc)") auto
    with False Cons.prems have r:
      "scanLevel env cnt cur (visited(ftyp c := True), f1, n1, c1) = (visited', found', next', nc')"
      by simp
    from scanFields_result[OF s] obtain newf0 newn0 where
      A: "f1 = found @ newf0" "n1 = next @ newn0"
         "\<forall>f\<in>set newf0. madeAt env c f" "\<forall>e\<in>set newn0. queuedAt env c e"
         "distinct (map index newn0)"
      unfolding madeAt_def queuedAt_def by auto
    from Cons.IH[OF r dc] obtain newf1 newn1 where
      B: "found' = f1 @ newf1" "next' = n1 @ newn1"
         "\<forall>f\<in>set newf1. \<exists>c\<in>set cur. madeAt env c f" "\<forall>e\<in>set newn1. \<exists>c\<in>set cur. queuedAt env c e"
         "distinct (map index newn1)"
      by blast
    have disj: "index ` set newn0 \<inter> index ` set newn1 = {}"
    proof (rule ccontr)
      assume "index ` set newn0 \<inter> index ` set newn1 \<noteq> {}"
      then obtain e0 e1 where e: "e0 \<in> set newn0" "e1 \<in> set newn1" "index e0 = index e1" by auto
      from A(4) e(1) obtain i where "index e0 = index c @ [i]" by (auto simp: queuedAt_def)
      moreover from B(4) e(2) obtain c' j where "c' \<in> set cur" "index e1 = index c' @ [j]"
        by (auto simp: queuedAt_def)
      ultimately have "index c' = index c" using e(3) by simp
      with \<open>c' \<in> set cur\<close> fresh show False by (metis imageI)
    qed
    have "found' = found @ (newf0 @ newf1)" using A(1) B(1) by simp
    moreover have "next' = next @ (newn0 @ newn1)" using A(2) B(2) by simp
    moreover have "\<forall>f\<in>set (newf0 @ newf1). \<exists>c'\<in>set (c # cur). madeAt env c' f"
      using A(3) B(3) by auto
    moreover have "\<forall>e\<in>set (newn0 @ newn1). \<exists>c'\<in>set (c # cur). queuedAt env c' e"
      using A(4) B(4) by auto
    moreover have "distinct (map index (newn0 @ newn1))"
      using A(5) B(5) disj by simp
    ultimately show ?thesis by blast
  qed
qed

definition walkInv :: "field list \<Rightarrow> field list \<Rightarrow> bool" where
  "walkInv queue found \<longleftrightarrow>
     distinct (map index queue)
     \<and> (\<exists>d. (\<forall>e\<in>set queue. length (index e) = d) \<and> (\<forall>f\<in>set found. length (index f) \<le> d))
     \<and> (\<forall>f\<in>set found. \<forall>e\<in>set queue. \<not> prefix (index f) (index e))
     \<and> (\<forall>f\<in>set found. \<forall>g\<in>set found. prefix (index f) (index g) \<longrightarrow> f = g)
     \<and> (\<forall>f\<in>set found. tag f \<longrightarrow> name f \<noteq> '''')"

lemma prefix_same_length: "prefix xs ys \<Longrightarrow> length ys \<le> length xs \<Longrightarrow> xs = ys"
  by (auto simp: prefix_def)

lemma madeAt_same:
  assumes "madeAt env c f" "madeAt env c' g" "index f = index g" "index c' = index c \<longrightarrow> c' = c"
  shows "f = g"
proof -
  from assms(1) obtain i where f: "f = leafField env c i (t_Fields (rtype_of env (ftyp c)) ! i)"
    by (auto simp: madeAt_def)
  from assms(2) obtain j where g: "g = leafField env c' j (t_Fields (rtype_of env (ftyp c')) ! j)"
    by (auto simp: madeAt_def)
  from assms(3) f g have "index c = index c'" "i = j" by simp_all
  with assms(4) f g show ?thesis by simp
qed

lemma madeAt_not_queuedAt:
  assumes "madeAt env c f" "queuedAt env c' e" "index f = index e" "index c' = index c \<longrightarrow> c' = c"
  shows False
proof -
  from assms(1) obtain i where f: "recorded env (t_Fields (rtype_of env (ftyp c)) ! i)"
    "index f = index c @ [i]"
    by (auto simp: madeAt_def)
  from assms(2) obtain j where g: "\<not> recorded env (t_Fields (rtype_of env (ftyp c')) ! j)"
    "index e = index c' @ [j]"
    by (auto simp: queuedAt_def)
  from assms(3) f(2) g(2) have "index c = index c'" "i = j" by simp_all
  with assms(4) f(1) g(1) show False by simp
qed

lemma walkInv_step:
  assumes inv: "walkInv queue found"
    and lev: "scanLevel env cnt queue (visited, found, [], nc) = (visited', found', queue', nc')"
  shows "walkInv queue' found'"
proof -
  from inv obtain d where
    dq: "distinct (map index queue)"
    and lq: "\<forall>e\<in>set queue. length (index e) = d"
    and lf: "\<forall>f\<in>set found. length (index f) \<le> d"
    and fq: "\<forall>f\<in>set found. \<forall>e\<in>set queue. \<not> prefix (index f) (index e)"
    and ff: "\<forall>f\<in>set found. \<forall>g\<in>set found. prefix (index f) (index g) \<longrightarrow> f = g"
    and tg: "\<forall>f\<in>set found. tag f \<longrightarrow> name f \<noteq> ''''"
    unfolding walkInv_def by blast
  from scanLevel_result[OF lev dq] obtain newf where
    found': "found' = found @ newf"
    and mk: "\<forall>f\<in>set newf. \<exists>c\<in>set queue. madeAt env c f"
    and qu: "\<forall>e\<in>set queue'. \<exists>c\<in>set queue. queuedAt env c e"
    and dq': "distinct (map index queue')"
    by auto
  have same: "\<And>c c'. c \<in> set queue \<Longrightarrow> c' \<in> set queue \<Longrightarrow> index c' = index c \<longrightarrow> c' = c"
    using dq by (auto simp: distinct_map inj_on_def)
  have new_len: "\<forall>f\<in>set newf. length (index f) = Suc d"
  proof
    fix f assume "f \<in> set newf"
    with mk obtain c where "c \<in> set queue" "madeAt env c f" by blast
    with lq show "length (index f) = Suc d" by (auto simp: madeAt_def)
  qed
  have q_len: "\<forall>e\<in>set queue'. length (index e) = Suc d"
  proof
    fix e assume "e \<in> set queue'"
    with qu obtain c where "c \<in> set queue" "queuedAt env c e" by blast
    with lq show "length (index e) = Suc d" by (auto simp: queuedAt_def)
  qed
  have old_below: "\<And>f c i. f \<in> set found \<Longrightarrow> c \<in> set queue \<Longrightarrow> \<not> prefix (index f) (index c @ [i])"
  proof
    fix f c i assume f: "f \<in> set found" and c: "c \<in> set queue"
      and p: "prefix (index f) (index c @ [i])"
    from p have "index f = index c @ [i] \<or> prefix (index f) (index c)" by (simp add: prefix_snoc)
    moreover from lf lq f c have "length (index f) \<le> length (index c)" by simp
    ultimately have "prefix (index f) (index c)" by auto
    with fq f c show False by blast
  qed
  have old_new: "\<forall>f\<in>set found. \<forall>g\<in>set newf. \<not> prefix (index f) (index g)"
  proof (intro ballI)
    fix f g assume f: "f \<in> set found" and g: "g \<in> set newf"
    from mk g obtain c i where "c \<in> set queue" "index g = index c @ [i]"
      by (auto simp: madeAt_def)
    with old_below[OF f] show "\<not> prefix (index f) (index g)" by simp
  qed
  have new_old: "\<forall>f\<in>set newf. \<forall>g\<in>set found. \<not> prefix (index f) (index g)"
  proof (intro ballI notI)
    fix f g assume f: "f \<in> set newf" and g: "g \<in> set found"
      and p: "prefix (index f) (index g)"
    from prefix_length_le[OF p] new_len f lf g show False by auto
  qed
  have new_new: "\<forall>f\<in>set newf. \<forall>g\<in>set newf. prefix (index f) (index g) \<longrightarrow> f = g"
  proof (intro ballI impI)
    fix f g assume f: "f \<in> set newf" and g: "g \<in> set newf"
      and p: "prefix (index f) (index g)"
    from new_len f g have "length (index g) \<le> length (index f)" by simp
    with p have eq: "index f = index g" by (rule prefix_same_length)
    from mk f obtain c where c: "c \<in> set queue" "madeAt env c f" by blast
    from mk g obtain c' where c': "c' \<in> set queue" "madeAt env c' g" by blast
    from madeAt_same[OF c(2) c'(2) eq same[OF c(1) c'(1)]] show "f = g" .
  qed
  have 3: "\<forall>f\<in>set found'. \<forall>e\<in>set queue'. \<not> prefix (index f) (index e)"
  proof (intro ballI notI)
    fix f e assume f: "f \<in> set found'" and e: "e \<in> set queue'"
      and p: "prefix (index f) (index e)"
    from qu e obtain c' where c': "c' \<in> set queue" "queuedAt env c' e" by blast
    then obtain j where ej: "index e = index c' @ [j]" by (auto simp: queuedAt_def)
    from f found' consider "f \<in> set found" | "f \<in> set newf" by auto
    then show False
    proof cases
      case 1
      from old_below[OF 1 c'(1), of j] p ej show False by simp
    next
      case 2
      from new_len 2 q_len e have "length (index e) \<le> length (index f)" by simp
      with p have eq: "index f = index e" by (rule prefix_same_length)
      from mk 2 obtain c where c: "c \<in> set queue" "madeAt env c f" by blast
      from madeAt_not_queuedAt[OF c(2) c'(2) eq same[OF c(1) c'(1)]] show False .
    qed
  qed
  have 4: "\<forall>f\<in>set found'. \<forall>g\<in>set found'. prefix (index f) (index g) \<longrightarrow> f = g"
    using ff old_new new_old new_new unfolding found' by auto
  have 5: "\<forall>f\<in>set found'. tag f \<longrightarrow> name f \<noteq> ''''"
  proof (intro ballI impI)
    fix f assume f: "f \<in> set found'" and t: "tag f"
    from f found' consider "f \<in> set found" | "f \<in> set newf" by auto
    then show "name f \<noteq> ''''"
    proof cases
      case 1
      with tg t show ?thesis by blast
    next
      case 2
      with mk obtain c where "madeAt env c f" by blast
      with t show ?thesis by (auto simp: madeAt_def)
    qed
  qed
  have 2: "\<forall>f\<in>set found'. length (index f) \<le> Suc d"
    using lf new_len unfolding found' by auto
  show ?thesis unfolding walkInv_def using dq' q_len 2 3 4 5 by blast
qed

lemma typeFields_loop_inv:
  "walkInv queue found \<Longrightarrow> walkInv [] (typeFields_loop env queue nc visited found)"
proof (induction env queue nc visited found rule: typeFields_loop.induct)
  case (1 env queue nc visited found)
  show ?case
  proof (cases "queue = []")
    case True
    with "1.prems" show ?thesis by simp
  next
    case False
    obtain v' f' q' c' where lev:
      "scanLevel env nc queue (visited, found, [], \<lambda>_. 0) = (v', f', q', c')"
      by (cases "scanLevel env nc queue (visited, found, [], \<lambda>_. 0)") auto
    from walkInv_step[OF "1.prems" lev] have "walkInv q' f'" .
    from "1.IH"[OF False lev[symmetric] refl refl this] False lev show ?thesis by simp
  qed
qed

lemma collectFields_inv: "walkInv [] (collectFields env t)"
  unfolding collectFields_def by (rule typeFields_loop_inv) (simp add: walkInv_def)

lemma collectFields_paths:
  "f \<in> set (collectFields env t) \<Longrightarrow> g \<in> set (collectFields env t)
   \<Longrightarrow> prefix (index f) (index g) \<Longrightarrow> f = g"
  using collectFields_inv[of env t] by (auto simp: walkInv_def)

lemma collectFields_tagged:
  "f \<in> set (collectFields env t) \<Longrightarrow> tag f \<Longrightarrow> name f \<noteq> ''''"
  using collectFields_inv[of env t] by (auto simp: walkInv_def)

lemma collisionLoop_subset:
  "set (snd (collisionLoop (nm, out) xs)) \<subseteq> set out \<union> set xs"
proof (induction xs arbitrary: nm out)
  case Nil
  then show ?case by simp
next
  case (Cons f fs)
  obtain nm1 out1 where s: "collisionStep (nm, out) f = (nm1, out1)"
    by (cases "collisionStep (nm, out) f") auto
  then have "set out1 \<subseteq> set out \<union> {f}"
    by (auto simp: collisionStep_def split: if_splits dest: in_set_butlastD)
  with Cons.IH[of nm1 out1] s show ?case by auto
qed

lemma resolveFields_subset: "set (resolveFields env t) \<subseteq> set (collectFields env t)"
  using collisionLoop_subset[of "''''" "[]" "sort_key byName_key (collectFields env t)"]
  by (simp add: resolveFields_def removeCollisions_def sort_byName sort_byIndex)

lemma resolveFields_paths:
  assumes "f \<in> set (resolveFields env t)" "g \<in> set (resolveFields env t)" "name f \<noteq> name g"
  shows "\<not> prefix (index f) (index g)"
  using assms collectFields_paths[of f env t g] resolveFields_subset[of env t] by auto

section \<open>Targets and the session's entries\<close>

text \<open>
  The targets follow the reported columns one by one: the discard target for a column
  without a field, else the address that \<open>FieldByIndex\<close> finds for the bound field. A
  session is well formed when each entry is what \<open>typeFields\<close> returns for its type; the
  empty session is, and the session's operations keep it so.
\<close>

lemma bindColumns_targets:
  "bindColumns finfos h elem cols = Inr (ts, printed) \<Longrightarrow>
   length ts = length cols
   \<and> (\<forall>i<length cols. ts ! i = (case finfos (cols ! i) of None \<Rightarrow> Discard
                                 | Some fi \<Rightarrow> FieldAddr (the (FieldByIndex h elem (index fi)))))"
proof (induction cols arbitrary: ts printed)
  case Nil
  then show ?case by simp
next
  case (Cons c cols)
  from Cons.prems obtain ts' pr' where r: "bindColumns finfos h elem cols = Inr (ts', pr')"
    and ts: "ts = (case finfos c of None \<Rightarrow> Discard
                   | Some fi \<Rightarrow> FieldAddr (the (FieldByIndex h elem (index fi)))) # ts'"
    by (auto split: option.splits sum.splits)
  from Cons.IH[OF r] ts show ?case by (auto simp: nth_Cons split: nat.splits)
qed

lemma bindColumns_panic:
  "bindColumns finfos h elem cols = Inl p \<Longrightarrow>
   p = FieldByIndexPanic
   \<and> (\<exists>c\<in>set cols. \<exists>fi. finfos c = Some fi \<and> FieldByIndex h elem (index fi) = None)"
proof (induction cols)
  case Nil
  then show ?case by simp
next
  case (Cons c cols)
  then show ?case by (auto split: option.splits sum.splits)
qed

lemma bindColumns_unbound:
  "\<forall>c\<in>set cols. finfos c = None \<Longrightarrow>
   bindColumns finfos h elem cols
     = Inr (map (\<lambda>c. Discard) cols, map (\<lambda>c. ''sqlstruct: no field for '' @ c) cols)"
  by (induction cols) auto

lemma scan_panic: "scan h destv found rows = Inl p \<Longrightarrow> p = FieldByIndexPanic \<or> p = ElemOfNonPointer"
  by (cases "rows_Columns rows")
     (auto simp: scan_def Elem_def Let_def
           split: sum.splits prod.splits option.splits val.splits dest: bindColumns_panic)

lemma typeFields_panic: "typeFields env t = Inl p \<Longrightarrow> p = NumFieldOfNonStruct"
  by (auto simp: typeFields_def split: if_splits)

definition pointerToStruct :: "env \<Rightarrow> tid \<Rightarrow> bool" where
  "pointerToStruct env ty \<longleftrightarrow>
     t_Kind (rtype_of env ty) = KPtr \<and> t_Kind (rtype_of env (t_Elem (rtype_of env ty))) = KStruct"

lemma bindColumns_addr:
  "bindColumns finfos h elem cols = Inr (ts, pr) \<Longrightarrow> FieldAddr b \<in> set ts
   \<Longrightarrow> \<exists>c\<in>set cols. \<exists>fi. finfos c = Some fi \<and> FieldByIndex h elem (index fi) = Some b"
proof (induction cols arbitrary: ts pr)
  case Nil
  then show ?case by simp
next
  case (Cons c cols)
  then show ?case by (auto split: option.splits sum.splits)
qed

lemma buildInfos_Some:
  "buildInfos found m c = Some fi \<Longrightarrow> (fi \<in> set found \<and> name fi = c) \<or> m c = Some fi"
  by (induction found arbitrary: m) (fastforce split: if_splits)+

definition sessionOK :: "env \<Rightarrow> Session \<Rightarrow> bool" where
  "sessionOK env s \<longleftrightarrow> (\<forall>t found. s t = Some found \<longrightarrow> typeFields env t = Inr found)"

lemma NewSession_ok: "sessionOK env NewSession"
  by (simp add: sessionOK_def NewSession_def)

lemma Session_fields_ok:
  assumes "sessionOK env s" "Session_fields env s t = (r, s')"
  shows "sessionOK env s' \<and> r = typeFields env t"
proof (cases "s t")
  case None
  show ?thesis
  proof (cases "typeFields env t")
    case (Inl p)
    with None assms show ?thesis by (simp add: Session_fields_def)
  next
    case (Inr found)
    with None assms(2) have "s' = s(t \<mapsto> found)" "r = typeFields env t"
      by (simp_all add: Session_fields_def)
    with assms(1) Inr show ?thesis by (simp add: sessionOK_def)
  qed
next
  case (Some found)
  with assms show ?thesis by (auto simp: sessionOK_def Session_fields_def)
qed

lemma Session_Scan_ok:
  "sessionOK env s \<Longrightarrow> Session_Scan env s h dest rows = (r, s') \<Longrightarrow> sessionOK env s'"
  by (cases dest)
     (auto simp: Session_Scan_def split: if_splits prod.splits sum.splits dest: Session_fields_ok)

lemma Session_Columns_ok:
  "sessionOK env s \<Longrightarrow> Session_Columns env s d = (r, s') \<Longrightarrow> sessionOK env s'"
  by (cases d)
     (auto simp: Session_Columns_def split: if_splits prod.splits sum.splits dest: Session_fields_ok)

lemma Session_fields_hit:
  "s t = Some found \<Longrightarrow> Session_fields env' s t = (Inr found, s)"
  by (simp add: Session_fields_def)

section \<open>Stores through shared memory\<close>

text \<open>
  A store through the address \<open>b\<close> replaces everything at or below \<open>b\<close>: \<open>covers b c\<close> says that
  \<open>c\<close> is such a place. \<open>walkAddrs\<close> lists the places that \<open>FieldByIndex\<close> reads on its way:
  the struct it starts from, each embedded field, and the pointee of each embedded
  pointer. The address \<open>b\<close> aliases the field at the index path \<open>idx\<close> when a store through
  \<open>b\<close> replaces one of these places or a part of the field itself. A store through an
  address that does not alias the field leaves the walk, the field's address and the
  field's value as they were.
\<close>

definition covers :: "addr \<Rightarrow> addr \<Rightarrow> bool" where
  "covers b c \<longleftrightarrow> fst b = fst c \<and> prefix (snd b) (snd c)"

fun walkAddrs :: "heap \<Rightarrow> bool \<Rightarrow> addr \<Rightarrow> nat list \<Rightarrow> addr list" where
  "walkAddrs h later a [] = [a]"
| "walkAddrs h later a (x # xs) =
     a # (case (if later then (case load h a of Some (VPtr p) \<Rightarrow> p | _ \<Rightarrow> Some a) else Some a) of
            None \<Rightarrow> []
          | Some s \<Rightarrow> s # (case Field h s x of None \<Rightarrow> [] | Some u \<Rightarrow> walkAddrs h True u xs))"

definition aliases :: "heap \<Rightarrow> addr option \<Rightarrow> nat list \<Rightarrow> addr \<Rightarrow> bool" where
  "aliases h elem idx b \<longleftrightarrow>
     (case elem of
        None \<Rightarrow> False
      | Some a \<Rightarrow> (\<exists>c\<in>set (walkAddrs h False a idx). covers b c)
                  \<or> (\<exists>af\<in>set_option (fieldWalk h False a idx). covers af b))"

definition sameShape :: "val option \<Rightarrow> val option \<Rightarrow> bool" where
  "sameShape u v \<longleftrightarrow>
     (case u of Some (VStruct vs) \<Rightarrow> (\<exists>vs'. v = Some (VStruct vs') \<and> length vs' = length vs)
      | _ \<Rightarrow> v = u)"

lemma subval_updval_diverge:
  "\<not> prefix p q \<Longrightarrow> \<not> prefix q p \<Longrightarrow> subval (updval v q w) p = subval v p"
proof (induction q arbitrary: p v)
  case Nil
  then show ?case by simp
next
  case (Cons x xs)
  from Cons.prems(1) obtain y ys where p: "p = y # ys" by (cases p) auto
  show ?case
  proof (cases "x = y")
    case False
    then show ?thesis unfolding p by (auto split: val.splits)
  next
    case True
    with Cons.prems p have "\<not> prefix ys xs" "\<not> prefix xs ys" by auto
    from Cons.IH[OF this] show ?thesis unfolding p True by (auto split: val.splits)
  qed
qed

lemma updval_shape:
  "q \<noteq> [] \<Longrightarrow> sameShape (Some v) (Some (updval v q w))"
  by (cases q; cases v) (auto simp: sameShape_def)

lemma subval_updval_below:
  "sameShape (subval v p) (subval (updval v (p @ x # xs) w) p)"
proof (induction p arbitrary: v)
  case Nil
  show ?case using updval_shape[of "x # xs" v w] by simp
next
  case (Cons y ys)
  show ?case
  proof (cases v)
    case (VStruct vs)
    show ?thesis
    proof (cases "y < length vs")
      case True
      with VStruct Cons.IH[of "vs ! y"] show ?thesis by simp
    next
      case False
      with VStruct show ?thesis by (simp add: sameShape_def)
    qed
  qed (simp_all add: sameShape_def)
qed

lemma sameShape_refl: "sameShape u u"
  by (auto simp: sameShape_def split: option.splits val.splits)

lemma load_store_shape:
  assumes "\<not> covers b c"
  shows "sameShape (load h c) (load (store h b w) c)"
proof (cases "fst b = fst c \<and> fst b < length h")
  case False
  then have "load (store h b w) c = load h c" by (auto simp: load_def store_def)
  then show ?thesis by (simp add: sameShape_refl)
next
  case True
  with assms have np: "\<not> prefix (snd b) (snd c)" by (simp add: covers_def)
  from True have l: "load (store h b w) c = subval (updval (h ! fst c) (snd b) w) (snd c)"
    "load h c = subval (h ! fst c) (snd c)"
    by (auto simp: load_def store_def)
  show ?thesis
  proof (cases "prefix (snd c) (snd b)")
    case False
    with np l subval_updval_diverge[of "snd c" "snd b"] show ?thesis by (simp add: sameShape_refl)
  next
    case True
    with np obtain x xs where "snd b = snd c @ x # xs"
      by (metis prefix_def append_Nil2 neq_Nil_conv prefix_order.order_refl)
    with l subval_updval_below[of "h ! fst c" "snd c" x xs w] show ?thesis by simp
  qed
qed

lemma load_store_frame:
  assumes "\<not> covers a b" "\<not> covers b a"
  shows "load (store h b w) a = load h a"
proof (cases "fst b = fst a \<and> fst b < length h")
  case False
  then show ?thesis by (auto simp: load_def store_def)
next
  case True
  with assms have "\<not> prefix (snd a) (snd b)" "\<not> prefix (snd b) (snd a)"
    by (auto simp: covers_def)
  from subval_updval_diverge[OF this] True show ?thesis by (auto simp: load_def store_def)
qed

lemma Field_shape: "sameShape (load h s) (load h' s) \<Longrightarrow> Field h' s x = Field h s x"
  by (auto simp: Field_def sameShape_def split: option.splits val.splits)

lemma deref_shape:
  "sameShape (load h a) (load h' a) \<Longrightarrow>
   (case load h' a of Some (VPtr p) \<Rightarrow> p | _ \<Rightarrow> Some a) = (case load h a of Some (VPtr p) \<Rightarrow> p | _ \<Rightarrow> Some a)"
  by (auto simp: sameShape_def split: option.splits val.splits)

lemma walk_store:
  "\<forall>c\<in>set (walkAddrs h l a idx). \<not> covers b c \<Longrightarrow>
   fieldWalk (store h b w) l a idx = fieldWalk h l a idx
   \<and> walkAddrs (store h b w) l a idx = walkAddrs h l a idx"
proof (induction idx arbitrary: l a)
  case Nil
  show ?case by simp
next
  case (Cons x xs)
  let ?h = "store h b w"
  let ?d = "\<lambda>h. (if l then (case load h a of Some (VPtr p) \<Rightarrow> p | _ \<Rightarrow> Some a) else Some a)"
  from Cons.prems have "\<not> covers b a" by simp
  then have d: "?d ?h = ?d h" using deref_shape[OF load_store_shape] by simp
  show ?case
  proof (cases "?d h")
    case None
    with d show ?thesis by simp
  next
    case (Some s)
    with Cons.prems have "\<not> covers b s" by simp
    then have f: "Field ?h s x = Field h s x" using Field_shape[OF load_store_shape] by simp
    show ?thesis
    proof (cases "Field h s x")
      case None
      with Some d f show ?thesis by simp
    next
      case u: (Some u)
      with Some Cons.prems have "\<forall>c\<in>set (walkAddrs h True u xs). \<not> covers b c" by simp
      from Cons.IH[OF this] Some d f u show ?thesis by simp
    qed
  qed
qed

lemma fieldWalk_in_walkAddrs:
  "fieldWalk h l a idx = Some af \<Longrightarrow> af \<in> set (walkAddrs h l a idx)"
  by (induction idx arbitrary: l a) (auto split: option.splits if_splits)

lemma FieldByIndex_store:
  assumes "\<not> aliases h elem idx b"
  shows "FieldByIndex (store h b w) elem idx = FieldByIndex h elem idx
         \<and> (\<forall>af. FieldByIndex h elem idx = Some af \<longrightarrow> load (store h b w) af = load h af)
         \<and> (\<forall>b'. aliases (store h b w) elem idx b' = aliases h elem idx b')"
proof (cases elem)
  case None
  then show ?thesis by (simp add: FieldByIndex_def aliases_def)
next
  case (Some a)
  with assms have nc: "\<forall>c\<in>set (walkAddrs h False a idx). \<not> covers b c"
    and na: "\<forall>af. fieldWalk h False a idx = Some af \<longrightarrow> \<not> covers af b"
    by (auto simp: aliases_def)
  have "a \<in> set (walkAddrs h False a idx)" by (cases idx) simp_all
  with nc have "\<not> covers b a" by blast
  from load_store_shape[OF this, of h w]
  have root: "(\<exists>vs. load (store h b w) a = Some (VStruct vs)) \<longleftrightarrow> (\<exists>vs. load h a = Some (VStruct vs))"
    by (auto simp: sameShape_def split: option.splits val.splits)
  from walk_store[OF nc, of w] have w: "fieldWalk (store h b w) False a idx = fieldWalk h False a idx"
    and ws: "walkAddrs (store h b w) False a idx = walkAddrs h False a idx" by simp_all
  have 1: "FieldByIndex (store h b w) elem idx = FieldByIndex h elem idx"
    using root w Some by (auto simp: FieldByIndex_def split: option.splits val.splits)
  have 2: "\<forall>af. FieldByIndex h elem idx = Some af \<longrightarrow> load (store h b w) af = load h af"
  proof (intro allI impI)
    fix af assume "FieldByIndex h elem idx = Some af"
    with Some have fw: "fieldWalk h False a idx = Some af"
      by (auto simp: FieldByIndex_def split: option.splits val.splits)
    from fieldWalk_in_walkAddrs[OF fw] nc have "\<not> covers b af" by blast
    moreover from na fw have "\<not> covers af b" by blast
    ultimately show "load (store h b w) af = load h af" by (rule load_store_frame[rotated])
  qed
  have 3: "\<forall>b'. aliases (store h b w) elem idx b' = aliases h elem idx b'"
    using Some w ws by (simp add: aliases_def)
  from 1 2 3 show ?thesis by blast
qed

lemma applyWrites_frame:
  "\<forall>b. FieldAddr b \<in> set ts \<longrightarrow> \<not> aliases h elem idx b \<Longrightarrow>
   FieldByIndex (applyWrites h ts ws) elem idx = FieldByIndex h elem idx
   \<and> (\<forall>af. FieldByIndex h elem idx = Some af \<longrightarrow> load (applyWrites h ts ws) af = load h af)"
proof (induction ts arbitrary: h ws)
  case Nil
  then show ?case by simp
next
  case (Cons t ts)
  from Cons.prems have rest: "\<forall>b. FieldAddr b \<in> set ts \<longrightarrow> \<not> aliases h elem idx b"
    by (metis list.set_intros(2))
  show ?case
  proof (cases ws)
    case Nil
    then show ?thesis by (cases t) simp_all
  next
    case ws: (Cons w ws')
    show ?thesis
    proof (cases "\<exists>b v. t = FieldAddr b \<and> w = Some v")
      case True
      then obtain b v where t: "t = FieldAddr b" "w = Some v" by blast
      from Cons.prems have "FieldAddr b \<in> set (t # ts) \<longrightarrow> \<not> aliases h elem idx b" by (rule spec)
      with t have nb: "\<not> aliases h elem idx b" by simp
      note st = FieldByIndex_store[OF nb, of v]
      from rest st have "\<forall>b'. FieldAddr b' \<in> set ts \<longrightarrow> \<not> aliases (store h b v) elem idx b'"
        by simp
      from Cons.IH[OF this, of ws'] st t ws show ?thesis by simp
    next
      case False
      then have "applyWrites h (t # ts) (w # ws') = applyWrites h ts ws'"
        by (cases t; cases w) auto
      with rest Cons.IH[of h ws'] ws show ?thesis by simp
    qed
  qed
qed

text \<open>
  Where the walks to two fields follow no pointer, both fields lie in the destination
  struct itself, at their index paths, and neither aliases the other unless one path
  is a prefix of the other; that never happens between two fields returned by the
  resolver (lemma \<open>resolveFields_paths\<close>).
\<close>

definition inlineWalk :: "heap \<Rightarrow> addr \<Rightarrow> nat list \<Rightarrow> bool" where
  "inlineWalk h a idx \<longleftrightarrow>
     fieldWalk h False a idx = Some (fst a, snd a @ idx)
     \<and> set (walkAddrs h False a idx) \<subseteq> (\<lambda>q. (fst a, snd a @ q)) ` set (prefixes idx)"

lemma inline_not_aliased:
  assumes "inlineWalk h a idx" "\<not> prefix idx idx'" "\<not> prefix idx' idx"
  shows "\<not> aliases h (Some a) idx (fst a, snd a @ idx')"
proof
  assume "aliases h (Some a) idx (fst a, snd a @ idx')"
  then consider c where "c \<in> set (walkAddrs h False a idx)" "covers (fst a, snd a @ idx') c"
    | "covers (fst a, snd a @ idx) (fst a, snd a @ idx')"
    using assms(1) by (auto simp: aliases_def inlineWalk_def)
  then show False
  proof cases
    case 1
    with assms(1) obtain q where "prefix q idx" "c = (fst a, snd a @ q)"
      by (auto simp: inlineWalk_def)
    with 1(2) have "prefix idx' idx" by (auto simp: covers_def intro: prefix_order.trans)
    with assms(3) show False by simp
  next
    case 2
    with assms(2) show False by (simp add: covers_def)
  qed
qed

section \<open>The sorts and the sorting algorithm\<close>

text \<open>
  \<open>sort.Sort\<close> promises a permutation in which no later element is \<open>Less\<close> than an earlier
  one, and nothing about ties. Among the fields the traversal collects, two with the same
  index path are the same field, so both orderings are linear on them: every such
  permutation is the list that the insertion sort of the model returns, and the resolver's
  result does not depend on the algorithm behind \<open>sort.Sort\<close>.
\<close>

lemma sort_key_unique:
  assumes "mset ys = mset xs" and "sorted (map k ys)" and "inj_on k (set xs)"
  shows "sort_key k xs = ys"
proof (rule properties_for_sort_key)
  show "mset ys = mset xs" by (rule assms(1))
  show "sorted (map k ys)" by (rule assms(2))
  fix a assume "a \<in> set ys"
  from assms(1) have sets: "set ys = set xs" by (rule mset_eq_setD)
  with \<open>a \<in> set ys\<close> assms(3) have "\<And>x. x \<in> set xs \<Longrightarrow> k a = k x \<longleftrightarrow> a = x"
    by (auto simp: inj_on_def)
  then have 1: "filter (\<lambda>x. k a = k x) xs = filter (\<lambda>x. a = x) xs"
    and 2: "filter (\<lambda>x. k a = k x) ys = filter (\<lambda>x. a = x) ys"
    using sets by (auto intro: filter_cong)
  from assms(1) have "length (filter (\<lambda>x. a = x) ys) = length (filter (\<lambda>x. a = x) xs)"
    by (metis mset_filter size_mset)
  then have "replicate (length (filter (\<lambda>x. a = x) ys)) a = replicate (length (filter (\<lambda>x. a = x) xs)) a"
    by simp
  then have "filter (\<lambda>x. a = x) ys = filter (\<lambda>x. a = x) xs"
    by (simp add: replicate_length_filter)
  with 1 2 show "filter (\<lambda>x. k a = k x) ys = filter (\<lambda>x. k a = k x) xs" by simp
qed

lemma index_inj_on_candidates: "inj_on index (set (collectFields env t))"
  by (rule inj_onI) (auto intro: collectFields_paths)

lemma byName_key_inj_on_candidates: "inj_on byName_key (set (collectFields env t))"
  by (rule inj_onI) (auto simp: byName_key_def intro: collectFields_paths)

lemma sorted_wrt_Less_key:
  assumes "\<And>a b. lt a b \<longleftrightarrow> k a < k b"
  shows "sorted_wrt (\<lambda>a b. \<not> lt b a) ys \<longleftrightarrow> sorted (map k ys)"
  by (simp add: sorted_map assms not_less)

lemma any_sort_byName:
  assumes "mset ys = mset (collectFields env t)" and "sorted_wrt (\<lambda>a b. \<not> byName_Less b a) ys"
  shows "ys = sort_by byName_Less (collectFields env t)"
proof -
  have "sorted (map byName_key ys)"
    using assms(2) sorted_wrt_Less_key[of byName_Less byName_key ys] byName_Less_key by blast
  from sort_key_unique[OF assms(1) this byName_key_inj_on_candidates]
  show ?thesis by (simp add: sort_byName)
qed

lemma any_sort_byIndex:
  assumes "set zs \<subseteq> set (collectFields env t)"
    and "mset ys = mset zs" and "sorted_wrt (\<lambda>a b. \<not> byIndex_Less b a) ys"
  shows "ys = sort_by byIndex_Less zs"
proof -
  have "\<And>a b. byIndex_Less a b \<longleftrightarrow> index a < index b"
    by (simp add: byIndex_Less_def byIndex_walk_less)
  then have "sorted (map index ys)"
    using assms(3) sorted_wrt_Less_key[of byIndex_Less index ys] by blast
  moreover from assms(1) have "inj_on index (set zs)"
    by (rule inj_on_subset[OF index_inj_on_candidates])
  ultimately have "sort_key index zs = ys" by (rule sort_key_unique[OF assms(2)])
  then show ?thesis by (simp add: sort_byIndex)
qed

lemma removeCollisions_subset: "set (removeCollisions xs) \<subseteq> set xs"
  using collisionLoop_subset[of "''''" "[]" xs] by (simp add: removeCollisions_def)

lemma resolveFields_any_sort:
  assumes "mset s1 = mset (collectFields env t)" and "sorted_wrt (\<lambda>a b. \<not> byName_Less b a) s1"
    and "mset s2 = mset (removeCollisions s1)" and "sorted_wrt (\<lambda>a b. \<not> byIndex_Less b a) s2"
  shows "s2 = resolveFields env t"
proof -
  from any_sort_byName[OF assms(1,2)] have s1: "s1 = sort_by byName_Less (collectFields env t)" .
  have "set (removeCollisions s1) \<subseteq> set s1" by (rule removeCollisions_subset)
  also from assms(1) have "set s1 = set (collectFields env t)" by (rule mset_eq_setD)
  finally have "set (removeCollisions s1) \<subseteq> set (collectFields env t)" .
  from any_sort_byIndex[OF this assms(3,4)] s1 show ?thesis by (simp add: resolveFields_def)
qed

section \<open>The queue holds structs; the fields of the root\<close>

text \<open>
  Every entry that the traversal queues has a struct type, so \<open>NumField\<close> can only panic on
  the root. The collected fields with an index path of length one are the recorded fields
  of the root type, in declaration order; every other collected field has a longer path.
\<close>

lemma scanField_queue_kind:
  "scanField env c cnt i sf (found, next, nc) = (found', next', nc')
   \<Longrightarrow> \<forall>e\<in>set next'. e \<in> set next \<or> t_Kind (rtype_of env (ftyp e)) = KStruct"
  by (auto simp: scanField_def Let_def split: if_splits)

lemma scanFields_queue_kind:
  "scanFields env c cnt k sfs (found, next, nc) = (found', next', nc')
   \<Longrightarrow> \<forall>e\<in>set next'. e \<in> set next \<or> t_Kind (rtype_of env (ftyp e)) = KStruct"
proof (induction sfs arbitrary: k found "next" nc)
  case Nil
  then show ?case by simp
next
  case (Cons sf sfs)
  obtain f1 n1 c1 where s: "scanField env c cnt k sf (found, next, nc) = (f1, n1, c1)"
    by (cases "scanField env c cnt k sf (found, next, nc)") auto
  with Cons.prems have r: "scanFields env c cnt (Suc k) sfs (f1, n1, c1) = (found', next', nc')"
    by simp
  from Cons.IH[OF r] scanField_queue_kind[OF s] show ?case by blast
qed

lemma scanLevel_queue_kind:
  "scanLevel env cnt cur (visited, found, next, nc) = (visited', found', next', nc')
   \<Longrightarrow> \<forall>e\<in>set next'. e \<in> set next \<or> t_Kind (rtype_of env (ftyp e)) = KStruct"
proof (induction cur arbitrary: visited found "next" nc)
  case Nil
  then show ?case by simp
next
  case (Cons c cur)
  show ?case
  proof (cases "visited (ftyp c)")
    case True
    with Cons show ?thesis by simp
  next
    case False
    obtain f1 n1 c1 where s:
      "scanFields env c cnt 0 (t_Fields (rtype_of env (ftyp c))) (found, next, nc) = (f1, n1, c1)"
      by (cases "scanFields env c cnt 0 (t_Fields (rtype_of env (ftyp c))) (found, next, nc)") auto
    with False Cons.prems have r:
      "scanLevel env cnt cur (visited(ftyp c := True), f1, n1, c1) = (visited', found', next', nc')"
      by simp
    from Cons.IH[OF r] scanFields_queue_kind[OF s] show ?thesis by blast
  qed
qed

definition boundName :: "sfield \<Rightarrow> string" where
  "boundName sf = (if fst (parseTag (sf_Tag sf)) = '''' then sf_Name sf else fst (parseTag (sf_Tag sf)))"

definition rootEntry :: "tid \<Rightarrow> field" where
  "rootEntry t = \<lparr>ctx = '''', name = '''', fname = '''', tag = False, index = [], ftyp = t\<rparr>"

definition ownFields :: "env \<Rightarrow> field \<Rightarrow> nat \<Rightarrow> sfield list \<Rightarrow> field list" where
  "ownFields env c k sfs =
     map (\<lambda>(i, sf). leafField env c i sf)
       (filter (\<lambda>(i, sf). considered sf \<and> recorded env sf) (enumerate k sfs))"

lemma scanFields_found_once:
  "cnt (ftyp c) \<le> 1 \<Longrightarrow> scanFields env c cnt k sfs (found, next, nc) = (found', next', nc')
   \<Longrightarrow> found' = found @ ownFields env c k sfs"
proof (induction sfs arbitrary: k found "next" nc)
  case Nil
  then show ?case by (simp add: ownFields_def)
next
  case (Cons sf sfs)
  obtain f1 n1 c1 where s: "scanField env c cnt k sf (found, next, nc) = (f1, n1, c1)"
    by (cases "scanField env c cnt k sf (found, next, nc)") auto
  with Cons.prems have r: "scanFields env c cnt (Suc k) sfs (f1, n1, c1) = (found', next', nc')"
    by simp
  from s Cons.prems(1) have "f1 = found @ ownFields env c k [sf]"
    by (auto simp: scanField_def Let_def ownFields_def considered_def recorded_def leafField_def
          fieldElemType_def split: if_splits)
  with Cons.IH[OF Cons.prems(1) r] show ?case by (simp add: ownFields_def)
qed

lemma leafField_name [simp]: "name (leafField env c i sf) = boundName sf"
  by (simp add: leafField_def boundName_def)

lemma walkInv_root: "walkInv [rootEntry t] []"
  by (simp add: walkInv_def rootEntry_def)

lemma loop_appends_deeper:
  "walkInv queue found \<Longrightarrow> \<forall>e\<in>set queue. 1 \<le> length (index e)
   \<Longrightarrow> \<exists>newf. typeFields_loop env queue nc visited found = found @ newf
         \<and> (\<forall>f\<in>set newf. 2 \<le> length (index f))"
proof (induction env queue nc visited found rule: typeFields_loop.induct)
  case (1 env queue nc visited found)
  show ?case
  proof (cases "queue = []")
    case True
    then show ?thesis by simp
  next
    case False
    obtain v' f' q' c' where lev:
      "scanLevel env nc queue (visited, found, [], \<lambda>_. 0) = (v', f', q', c')"
      by (cases "scanLevel env nc queue (visited, found, [], \<lambda>_. 0)") auto
    from "1.prems"(1) have dq: "distinct (map index queue)" by (simp add: walkInv_def)
    from scanLevel_result[OF lev dq] obtain newf0 where
      f': "f' = found @ newf0" and mk: "\<forall>f\<in>set newf0. \<exists>c\<in>set queue. madeAt env c f"
      and qu: "\<forall>e\<in>set q'. \<exists>c\<in>set queue. queuedAt env c e"
      by auto
    have deep0: "\<forall>f\<in>set newf0. 2 \<le> length (index f)"
    proof
      fix f assume "f \<in> set newf0"
      with mk obtain c where "c \<in> set queue" "madeAt env c f" by blast
      with "1.prems"(2) show "2 \<le> length (index f)" by (auto simp: madeAt_def)
    qed
    have q1: "\<forall>e\<in>set q'. 1 \<le> length (index e)"
    proof
      fix e assume "e \<in> set q'"
      with qu obtain c where "c \<in> set queue" "queuedAt env c e" by blast
      then show "1 \<le> length (index e)" by (auto simp: queuedAt_def)
    qed
    from walkInv_step[OF "1.prems"(1) lev] have inv: "walkInv q' f'" .
    from "1.IH"[OF False lev[symmetric] refl refl inv q1] obtain newf1 where
      "typeFields_loop env q' c' v' f' = f' @ newf1" "\<forall>f\<in>set newf1. 2 \<le> length (index f)"
      by blast
    with False lev f' deep0 have
      "typeFields_loop env queue nc visited found = found @ (newf0 @ newf1)"
      "\<forall>f\<in>set (newf0 @ newf1). 2 \<le> length (index f)"
      by auto
    then show ?thesis by blast
  qed
qed

lemma collectFields_root_level:
  "filter (\<lambda>f. length (index f) \<le> 1) (collectFields env t)
   = ownFields env (rootEntry t) 0 (t_Fields (rtype_of env t))"
proof -
  let ?root = "rootEntry t"
  let ?own = "ownFields env ?root 0 (t_Fields (rtype_of env t))"
  obtain f1 q1 c1 where s:
    "scanFields env ?root (\<lambda>_. 0) 0 (t_Fields (rtype_of env t)) ([], [], \<lambda>_. 0) = (f1, q1, c1)"
    by (cases "scanFields env ?root (\<lambda>_. 0) 0 (t_Fields (rtype_of env t)) ([], [], \<lambda>_. 0)") auto
  from scanFields_found_once[OF _ s] have f1: "f1 = ?own" by simp
  have lev: "scanLevel env (\<lambda>_. 0) [?root] (\<lambda>_. False, [], [], \<lambda>_. 0)
               = ((\<lambda>_. False)(t := True), f1, q1, c1)"
    using s by (simp add: rootEntry_def)
  from walkInv_step[OF walkInv_root lev] have inv: "walkInv q1 f1" .
  from scanLevel_result[OF lev] have "\<forall>e\<in>set q1. \<exists>c\<in>set [?root]. queuedAt env c e" by auto
  then have q1: "\<forall>e\<in>set q1. 1 \<le> length (index e)" by (auto simp: queuedAt_def)
  from loop_appends_deeper[OF inv q1] obtain newf where
    r: "typeFields_loop env q1 c1 ((\<lambda>_. False)(t := True)) f1 = f1 @ newf"
    and deep: "\<forall>f\<in>set newf. 2 \<le> length (index f)" by blast
  have "collectFields env t = typeFields_loop env q1 c1 ((\<lambda>_. False)(t := True)) f1"
    unfolding collectFields_def rootEntry_def[symmetric]
    by (subst typeFields_loop.simps) (simp only: lev list.distinct if_False prod.case)
  with r have c: "collectFields env t = ?own @ newf" by (simp add: f1)
  have "filter (\<lambda>f. length (index f) \<le> 1) newf = []"
    using deep by (auto simp: filter_empty_conv)
  moreover have "filter (\<lambda>f. length (index f) \<le> 1) ?own = ?own"
    by (auto simp: filter_id_conv ownFields_def rootEntry_def)
  ultimately show ?thesis by (simp add: c)
qed

lemma tagged_first_candidate_wins:
  assumes "filter (\<lambda>f. name f = x \<and> length (index f) \<le> 1) (collectFields env t) = [r]"
    and "tag r"
    and "\<forall>f\<in>set (collectFields env t). name f = x \<and> 1 < length (index f) \<longrightarrow> \<not> tag f"
  shows "filter (\<lambda>f. name f = x) (resolveFields env t) = [r]"
proof -
  let ?L = "filter (\<lambda>f. name f = x) (collectFields env t)"
  let ?S = "sort_key byName_key ?L"
  let ?P = "\<lambda>f. length (index f) \<le> 1"
  have "r \<in> set (filter (\<lambda>f. name f = x \<and> length (index f) \<le> 1) (collectFields env t))"
    unfolding assms(1) by simp
  then have r: "r \<in> set (collectFields env t)" "name r = x" by simp_all
  with assms(2) have x: "x \<noteq> ''''" using collectFields_tagged by blast
  have names: "\<forall>f\<in>set ?S. name f = x" by simp
  have "sorted (map byName_key ?S)" by (rule sorted_sort_key)
  moreover have "\<forall>a\<in>set ?S. \<forall>b\<in>set ?S. ?P a \<and> \<not> ?P b \<longrightarrow> byName_key a < byName_key b"
    using names by (auto simp: byName_key_def)
  ultimately have split: "?S = filter ?P ?S @ filter (\<lambda>f. \<not> ?P f) ?S"
    by (rule sorted_depth_split)
  have "filter ?P ?S = sort_key byName_key (filter ?P ?L)" by (rule filter_sort)
  also have "filter ?P ?L = [r]" using assms(1) by (simp add: conj_commute)
  finally have head: "filter ?P ?S = [r]" by simp
  have "\<forall>g\<in>set (filter (\<lambda>f. \<not> ?P f) ?S). \<not> tag g" using assms(3) by auto
  with assms(2) have "survivor (r # filter (\<lambda>f. \<not> ?P f) ?S) = [r]"
    by (rule survivor_tagged_first)
  moreover from split have "?S = r # filter (\<lambda>f. \<not> ?P f) ?S" unfolding head by simp
  ultimately have "survivor ?S = [r]" by (rule ssubst[where P = "\<lambda>l. survivor l = [r]", rotated])
  with x show ?thesis by (simp add: resolveFields_name)
qed

lemma root_candidates_named:
  "filter (\<lambda>f. name f = x \<and> length (index f) \<le> 1) (collectFields env t)
   = map (\<lambda>(i, sf). leafField env (rootEntry t) i sf)
       (filter (\<lambda>(i, sf). considered sf \<and> recorded env sf \<and> boundName sf = x)
          (enumerate 0 (t_Fields (rtype_of env t))))"
proof -
  have "filter (\<lambda>f. name f = x \<and> length (index f) \<le> 1) (collectFields env t)
        = filter (\<lambda>f. name f = x) (filter (\<lambda>f. length (index f) \<le> 1) (collectFields env t))"
    by (simp add: conj_commute)
  also have "\<dots> = filter (\<lambda>f. name f = x) (ownFields env (rootEntry t) 0 (t_Fields (rtype_of env t)))"
    by (simp only: collectFields_root_level)
  also have "\<dots> = map (\<lambda>(i, sf). leafField env (rootEntry t) i sf)
       (filter (\<lambda>(i, sf). considered sf \<and> recorded env sf \<and> boundName sf = x)
          (enumerate 0 (t_Fields (rtype_of env t))))"
    by (simp add: ownFields_def filter_map comp_def case_prod_unfold conj_commute conj_left_commute)
  finally show ?thesis .
qed

lemma root_fields_ctx:
  assumes "typeFields env t = Inr found" and "f \<in> set found" and "length (index f) \<le> 1"
  shows "ctx f = t_Name (rtype_of env t)"
proof -
  from assms(1) have "found = resolveFields env t"
    by (auto simp: typeFields_def split: if_splits)
  with assms(2) resolveFields_subset[of env t] have "f \<in> set (collectFields env t)" by auto
  with assms(3) have "f \<in> set (filter (\<lambda>f. length (index f) \<le> 1) (collectFields env t))" by simp
  then have "f \<in> set (ownFields env (rootEntry t) 0 (t_Fields (rtype_of env t)))"
    by (simp only: collectFields_root_level)
  then show ?thesis by (auto simp: ownFields_def rootEntry_def)
qed

section \<open>Example types\<close>

text \<open>A row source that reports the given columns and stores the given row by position.\<close>

definition fixedRows :: "string list \<Rightarrow> val list \<Rightarrow> 'e rows" where
  "fixedRows cols row = \<lparr>rows_Columns = (cols, None), rows_Scan = (\<lambda>ts. (map Some row, None))\<rparr>"

text \<open>A row source whose \<open>Columns\<close> fails.\<close>

definition failingRows :: "'e \<Rightarrow> 'e rows" where
  "failingRows e = \<lparr>rows_Columns = ([], Some e), rows_Scan = (\<lambda>ts. ([], None))\<rparr>"

definition exported :: "string \<Rightarrow> string \<Rightarrow> bool \<Rightarrow> tid \<Rightarrow> sfield" where
  "exported nm tg anon ty =
     \<lparr>sf_Name = nm, sf_PkgPath = '''', sf_Tag = tg, sf_Anonymous = anon, sf_Type = ty\<rparr>"

definition structType :: "string \<Rightarrow> sfield list \<Rightarrow> rtype" where
  "structType nm sfs = \<lparr>t_Name = nm, t_Kind = KStruct, t_Fields = sfs, t_Elem = 0\<rparr>"

definition pointerTo :: "tid \<Rightarrow> rtype" where
  "pointerTo ty = \<lparr>t_Name = '''', t_Kind = KPtr, t_Fields = [], t_Elem = ty\<rparr>"

definition basicType :: "string \<Rightarrow> kind \<Rightarrow> rtype" where
  "basicType nm k = \<lparr>t_Name = nm, t_Kind = k, t_Fields = [], t_Elem = 0\<rparr>"

text \<open>
  Types 0 and 1 are \<open>int\<close> and \<open>string\<close>; type 2 is \<open>Base{ID int `sql:"id"`}\<close>, type 3 is
  \<open>Derived{Base; Name string `sql:"name"`}\<close> and type 4 is \<open>*Derived\<close>.
\<close>

definition scenarioEnv :: env where
  "scenarioEnv =
     [basicType ''int'' KInt, basicType ''string'' KString,
      structType ''Base'' [exported ''ID'' ''id'' False 0],
      structType ''Derived'' [exported ''Base'' '''' True 2, exported ''Name'' ''name'' False 1],
      pointerTo 3]"

text \<open>
  Types for the name collisions: \<open>A{Y int}\<close>, \<open>B{Y int}\<close>, \<open>Twins{A; B}\<close>, \<open>Inner{ID int}\<close>,
  \<open>Outer{ID int; Inner}\<close>, \<open>Keyed{Key int `sql:"ID"`; Inner}\<close>, \<open>Tagged{Key int `sql:"ID"`}\<close>,
  \<open>Holder{ID int; Tagged}\<close>, \<open>Flat{ID int; Key int `sql:"ID"`}\<close>, \<open>Mid{ID int; Tagged}\<close>,
  \<open>Top{Mid; Name string}\<close>, \<open>Left{Tagged}\<close>, \<open>Right{Tagged}\<close> and \<open>Both{ID int; Left; Right}\<close>,
  numbered from 2.
\<close>

definition collisionEnv :: env where
  "collisionEnv =
     [basicType ''int'' KInt, basicType ''string'' KString,
      structType ''A'' [exported ''Y'' '''' False 0],
      structType ''B'' [exported ''Y'' '''' False 0],
      structType ''Twins'' [exported ''A'' '''' True 2, exported ''B'' '''' True 3],
      structType ''Inner'' [exported ''ID'' '''' False 0],
      structType ''Outer'' [exported ''ID'' '''' False 0, exported ''Inner'' '''' True 5],
      structType ''Keyed'' [exported ''Key'' ''ID'' False 0, exported ''Inner'' '''' True 5],
      structType ''Tagged'' [exported ''Key'' ''ID'' False 0],
      structType ''Holder'' [exported ''ID'' '''' False 0, exported ''Tagged'' '''' True 8],
      structType ''Flat'' [exported ''ID'' '''' False 0, exported ''Key'' ''ID'' False 0],
      structType ''Mid'' [exported ''ID'' '''' False 0, exported ''Tagged'' '''' True 8],
      structType ''Top'' [exported ''Mid'' '''' True 11, exported ''Name'' '''' False 1],
      structType ''Left'' [exported ''Tagged'' '''' True 8],
      structType ''Right'' [exported ''Tagged'' '''' True 8],
      structType ''Both'' [exported ''ID'' '''' False 0, exported ''Left'' '''' True 13,
                           exported ''Right'' '''' True 14]]"

lemmas resolver_defs =
  typeFields_def resolveFields_def collectFields_def rtype_of_def unknownType_def scanField_def
  parseTag_def sort_by_def byName_Less_def byIndex_Less_def removeCollisions_def collisionStep_def
  exported_def structType_def pointerTo_def basicType_def

lemmas scan_defs =
  Scan_def scan_def Elem_def Field_def FieldByIndex_def load_def store_def fixedRows_def

text \<open>
  Types for a destination with an embedded pointer: type 2 is \<open>S{A int}\<close>, type 3 is \<open>*S\<close>,
  type 4 is \<open>Root{F S `sql:"f"`; *S}\<close> and type 5 is \<open>*Root\<close>.
\<close>

definition aliasEnv :: env where
  "aliasEnv =
     [basicType ''int'' KInt, basicType ''string'' KString,
      structType ''S'' [exported ''A'' '''' False 0],
      pointerTo 2,
      structType ''Root'' [exported ''F'' ''f'' False 2, exported ''S'' '''' True 3],
      pointerTo 4]"

text \<open>
  Types for embeddings that meet again: type 2 is \<open>Leaf{Z int}\<close>, types 3 and 4 are
  \<open>North{Leaf}\<close> and \<open>South{Leaf}\<close>, type 5 is \<open>Diamond{North; South}\<close>; type 6 is \<open>Core{Leaf}\<close>,
  types 7 and 8 are \<open>West{Core}\<close> and \<open>East{Core}\<close>, and type 9 is \<open>Deep{West; East}\<close>.
\<close>

definition diamondEnv :: env where
  "diamondEnv =
     [basicType ''int'' KInt, basicType ''string'' KString,
      structType ''Leaf'' [exported ''Z'' '''' False 0],
      structType ''North'' [exported ''Leaf'' '''' True 2],
      structType ''South'' [exported ''Leaf'' '''' True 2],
      structType ''Diamond'' [exported ''North'' '''' True 3, exported ''South'' '''' True 4],
      structType ''Core'' [exported ''Leaf'' '''' True 2],
      structType ''West'' [exported ''Core'' '''' True 6],
      structType ''East'' [exported ''Core'' '''' True 6],
      structType ''Deep'' [exported ''West'' '''' True 7, exported ''East'' '''' True 8]]"

section \<open>The scenario of the specification\<close>

text \<open>
  Claim C4. Resolving \<open>Derived\<close> yields exactly two entries, with bound names \<open>id\<close> and \<open>name\<close>
  and paths \<open>[0,0]\<close> and \<open>[1]\<close>; scanning a row source that reports the columns
  \<open>name, id\<close> with the row \<open>("bob", 7)\<close> into a \<open>Derived\<close> instance, whatever it held before,
  sets \<open>Name\<close> to \<open>bob\<close> and \<open>ID\<close> to 7 and returns no error. The instance is the only
  variable of the memory and the destination is its address.
\<close>

theorem scenario_Base_Derived:
  "(\<exists>found. typeFields scenarioEnv 3 = Inr found
      \<and> map name found = [''id'', ''name''] \<and> map index found = [[0, 0], [1]])
   \<and> Scan scenarioEnv [VStruct [VStruct [VInt i0], VStr n0]] (Iface 4 (VPtr (Some (0, []))))
         (fixedRows [''name'', ''id''] [VStr ''bob'', VInt 7] :: 'e rows)
       = Inr (None, [VStruct [VStruct [VInt 7], VStr ''bob'']], [])"
  by (simp add: scenarioEnv_def resolver_defs scan_defs Let_def)

theorem scenario_Base_Derived_witness:
  "(\<exists>found. typeFields scenarioEnv 3 = Inr found
      \<and> map name found = [''id'', ''name''] \<and> map index found = [[0, 0], [1]])
   \<and> Scan scenarioEnv [VStruct [VStruct [VInt 0], VStr '''']] (Iface 4 (VPtr (Some (0, []))))
         (fixedRows [''name'', ''id''] [VStr ''bob'', VInt 7] :: unit rows)
       = Inr (None, [VStruct [VStruct [VInt 7], VStr ''bob'']], [])"
  using scenario_Base_Derived [of 0 "''''"] by simp

section \<open>Name collisions\<close>

text \<open>
  Claim C5. The field list returned by the resolver has pairwise distinct bound names, for
  every type table and every root type.
\<close>

theorem bound_names_distinct: "typeFields env t = Inr found \<Longrightarrow> distinct (map name found)"
proof -
  assume "typeFields env t = Inr found"
  then have "found = resolveFields env t" by (auto simp: typeFields_def split: if_splits)
  moreover have "distinct (map name (resolveFields env t))"
    by (rule distinct_names_if_short) (simp add: resolveFields_name survivor_length)
  ultimately show ?thesis by simp
qed

theorem bound_names_distinct_witness:
  "typeFields scenarioEnv 3 = Inr (resolveFields scenarioEnv 3)
   \<and> distinct (map name (resolveFields scenarioEnv 3))"
  using bound_names_distinct [of scenarioEnv 3 "resolveFields scenarioEnv 3"]
  by (simp add: typeFields_def scenarioEnv_def rtype_of_def structType_def)



text \<open>
  Claim C1, as amended. If exactly one recorded field of the root type itself is bound to
  \<open>x\<close>, it is explicitly tagged, and every field bound to \<open>x\<close> that the traversal finds through
  embedded structs is untagged, then the returned field list has exactly one entry bound
  to \<open>x\<close>, the root's field.
\<close>

theorem tagged_root_field_wins:
  assumes "t_Kind (rtype_of env t) = KStruct"
    and "filter (\<lambda>(i, sf). considered sf \<and> recorded env sf \<and> boundName sf = x)
           (enumerate 0 (t_Fields (rtype_of env t))) = [(i, sf)]"
    and "fst (parseTag (sf_Tag sf)) \<noteq> ''''"
    and "\<forall>f\<in>set (collectFields env t). name f = x \<and> 1 < length (index f) \<longrightarrow> \<not> tag f"
  shows "\<exists>found. typeFields env t = Inr found
           \<and> filter (\<lambda>f. name f = x) found
               = [\<lparr>ctx = t_Name (rtype_of env t), name = x, fname = sf_Name sf, tag = True,
                   index = [i], ftyp = fieldElemType env sf\<rparr>]"
proof -
  let ?r = "leafField env (rootEntry t) i sf"
  have "(i, sf) \<in> set (filter (\<lambda>(i, sf). considered sf \<and> recorded env sf \<and> boundName sf = x)
           (enumerate 0 (t_Fields (rtype_of env t))))"
    unfolding assms(2) by simp
  then have bn: "boundName sf = x" by simp
  have "filter (\<lambda>f. name f = x \<and> length (index f) \<le> 1) (collectFields env t) = [?r]"
    by (simp only: root_candidates_named assms(2)) simp
  moreover have "tag ?r" using assms(3) by (simp add: leafField_def)
  ultimately have "filter (\<lambda>f. name f = x) (resolveFields env t) = [?r]"
    using assms(4) by (rule tagged_first_candidate_wins)
  moreover have "?r = \<lparr>ctx = t_Name (rtype_of env t), name = x, fname = sf_Name sf, tag = True,
                   index = [i], ftyp = fieldElemType env sf\<rparr>"
    using assms(3) bn by (simp add: leafField_def rootEntry_def boundName_def)
  ultimately show ?thesis using assms(1) by (simp add: typeFields_def)
qed

theorem tagged_root_field_wins_witness:
  "\<exists>found. typeFields collisionEnv 7 = Inr found
         \<and> filter (\<lambda>f. name f = ''ID'') found
             = [\<lparr>ctx = ''Keyed'', name = ''ID'', fname = ''Key'', tag = True, index = [0], ftyp = 0\<rparr>]"
proof -
  have c: "collectFields collisionEnv 7
     = [\<lparr>ctx = ''Keyed'', name = ''ID'', fname = ''Key'', tag = True, index = [0], ftyp = 0\<rparr>,
        \<lparr>ctx = ''Inner'', name = ''ID'', fname = ''ID'', tag = False, index = [1, 0], ftyp = 0\<rparr>]"
    by (simp add: collisionEnv_def resolver_defs Let_def)
  have k: "t_Kind (rtype_of collisionEnv 7) = KStruct"
    by (simp add: collisionEnv_def rtype_of_def structType_def)
  have f: "filter (\<lambda>(i, sf). considered sf \<and> recorded collisionEnv sf \<and> boundName sf = ''ID'')
           (enumerate 0 (t_Fields (rtype_of collisionEnv 7))) = [(0, exported ''Key'' ''ID'' False 0)]"
    by (simp add: collisionEnv_def rtype_of_def structType_def exported_def basicType_def considered_def
          recorded_def boundName_def parseTag_def fieldElemType_def)
  have g: "fst (parseTag (sf_Tag (exported ''Key'' ''ID'' False 0))) \<noteq> ''''"
    by (simp add: exported_def parseTag_def)
  have u: "\<forall>f\<in>set (collectFields collisionEnv 7). name f = ''ID'' \<and> 1 < length (index f) \<longrightarrow> \<not> tag f"
    by (simp add: c)
  have n: "t_Name (rtype_of collisionEnv 7) = ''Keyed''"
    "fieldElemType collisionEnv (exported ''Key'' ''ID'' False 0) = 0"
    "sf_Name (exported ''Key'' ''ID'' False 0) = ''Key''"
    by (simp_all add: collisionEnv_def rtype_of_def structType_def exported_def basicType_def fieldElemType_def)
  from tagged_root_field_wins [OF k f g u] show ?thesis unfolding n .
qed

text \<open>
  The claim as stated fails for an untagged root field, whatever the deeper field: in
  \<open>Outer{ID int; Inner}\<close> with \<open>Inner{ID int}\<close>, and in \<open>Holder{ID int; Tagged}\<close> with
  \<open>Tagged{Key int `sql:"ID"`}\<close>, the traversal finds the root's \<open>ID\<close> and the embedded field
  bound to \<open>ID\<close>, and the returned list has no entry at all.
\<close>

theorem root_shadowing_counterexample:
  "collectFields collisionEnv 6
     = [\<lparr>ctx = ''Outer'', name = ''ID'', fname = ''ID'', tag = False, index = [0], ftyp = 0\<rparr>,
        \<lparr>ctx = ''Inner'', name = ''ID'', fname = ''ID'', tag = False, index = [1, 0], ftyp = 0\<rparr>]
   \<and> typeFields collisionEnv 6 = Inr []
   \<and> collectFields collisionEnv 9
     = [\<lparr>ctx = ''Holder'', name = ''ID'', fname = ''ID'', tag = False, index = [0], ftyp = 0\<rparr>,
        \<lparr>ctx = ''Tagged'', name = ''ID'', fname = ''Key'', tag = True, index = [1, 0], ftyp = 0\<rparr>]
   \<and> typeFields collisionEnv 9 = Inr []"
  by (simp add: collisionEnv_def resolver_defs Let_def)

text \<open>
  Claim C2, as amended. If the fields bound to \<open>x\<close> that the traversal finds are an untagged
  field and a deeper, explicitly tagged field (each of them recorded once or twice), then
  no entry of the returned field list is bound to \<open>x\<close>: the untagged field is removed when
  the tagged one is met, and the tagged one, not being the first of its name, is never
  appended. The resolver returns without a panic.
\<close>

theorem deeper_tag_drops_name:
  assumes "t_Kind (rtype_of env t) = KStruct"
    and "set (filter (\<lambda>f. name f = x) (collectFields env t)) = {u, g}"
    and "\<not> tag u" and "tag g"
    and "length (index u) < length (index g)"
  shows "\<exists>found. typeFields env t = Inr found \<and> x \<notin> set (map name found)"
proof -
  let ?L = "filter (\<lambda>f. name f = x) (collectFields env t)"
  let ?S = "sort_key byName_key ?L"
  have set: "set ?S = {u, g}" using assms(2) by (simp only: set_sort)
  from assms(2) have "u \<in> set ?L" "g \<in> set ?L" by simp_all
  then have nm: "name u = x" "name g = x" by simp_all
  with assms(5) have lt: "byName_key u < byName_key g" by (simp add: byName_key_def)
  from assms(3,4) have ne: "u \<noteq> g" by auto
  from set obtain a rest where S: "?S = a # rest" by (cases ?S) auto
  have srt: "sorted (map byName_key (a # rest))" using sorted_sort_key[of byName_key ?L] S by simp
  have "a = u"
  proof (rule ccontr)
    assume "a \<noteq> u"
    with set S have "a = g" "u \<in> set rest" by auto
    with srt have "byName_key g \<le> byName_key u" by auto
    with lt show False by simp
  qed
  moreover from set S \<open>a = u\<close> ne have "rest \<noteq> []" by auto
  ultimately have "survivor ?S = []" using assms(3) S by simp
  then have "filter (\<lambda>f. name f = x) (resolveFields env t) = []"
    by (simp add: resolveFields_name)
  then have "x \<notin> set (map name (resolveFields env t))"
    by (auto simp: filter_empty_conv)
  with assms(1) show ?thesis by (simp add: typeFields_def)
qed

theorem deeper_tag_drops_name_witness:
  "collectFields collisionEnv 15
     = [\<lparr>ctx = ''Both'', name = ''ID'', fname = ''ID'', tag = False, index = [0], ftyp = 0\<rparr>,
        \<lparr>ctx = ''Tagged'', name = ''ID'', fname = ''Key'', tag = True, index = [1, 0, 0], ftyp = 0\<rparr>,
        \<lparr>ctx = ''Tagged'', name = ''ID'', fname = ''Key'', tag = True, index = [1, 0, 0], ftyp = 0\<rparr>]
   \<and> (\<exists>found. typeFields collisionEnv 15 = Inr found \<and> ''ID'' \<notin> set (map name found))"
proof -
  have k: "t_Kind (rtype_of collisionEnv 15) = KStruct"
    by (simp add: collisionEnv_def rtype_of_def structType_def)
  have c: "collectFields collisionEnv 15
     = [\<lparr>ctx = ''Both'', name = ''ID'', fname = ''ID'', tag = False, index = [0], ftyp = 0\<rparr>,
        \<lparr>ctx = ''Tagged'', name = ''ID'', fname = ''Key'', tag = True, index = [1, 0, 0], ftyp = 0\<rparr>,
        \<lparr>ctx = ''Tagged'', name = ''ID'', fname = ''Key'', tag = True, index = [1, 0, 0], ftyp = 0\<rparr>]"
    by (simp add: collisionEnv_def resolver_defs Let_def)
  have s: "set (filter (\<lambda>f. name f = ''ID'') (collectFields collisionEnv 15))
     = {\<lparr>ctx = ''Both'', name = ''ID'', fname = ''ID'', tag = False, index = [0], ftyp = 0\<rparr>,
        \<lparr>ctx = ''Tagged'', name = ''ID'', fname = ''Key'', tag = True, index = [1, 0, 0], ftyp = 0\<rparr>}"
    by (simp add: c)
  from deeper_tag_drops_name [OF k s] c show ?thesis by simp
qed

text \<open>
  The claim as stated fails: in \<open>Top{Mid; Name string}\<close> with \<open>Mid{ID int; Tagged}\<close> and
  \<open>Tagged{Key int `sql:"ID"`}\<close> the shallower untagged field is removed and the deeper tagged
  one is never appended, so no entry is bound to \<open>ID\<close>.
\<close>

theorem deeper_tag_counterexample:
  "collectFields collisionEnv 12
     = [\<lparr>ctx = ''Top'', name = ''Name'', fname = ''Name'', tag = False, index = [1], ftyp = 1\<rparr>,
        \<lparr>ctx = ''Mid'', name = ''ID'', fname = ''ID'', tag = False, index = [0, 0], ftyp = 0\<rparr>,
        \<lparr>ctx = ''Tagged'', name = ''ID'', fname = ''Key'', tag = True, index = [0, 1, 0], ftyp = 0\<rparr>]
   \<and> typeFields collisionEnv 12
     = Inr [\<lparr>ctx = ''Top'', name = ''Name'', fname = ''Name'', tag = False, index = [1], ftyp = 1\<rparr>]"
  by (simp add: collisionEnv_def resolver_defs Let_def)

text \<open>
  The tagged field is kept where it is not deeper than the untagged one, since it then
  sorts first.
\<close>

lemma tagged_candidate_kept_if_not_deeper:
  assumes "t_Kind (rtype_of env t) = KStruct"
    and "filter (\<lambda>f. name f = x) (collectFields env t) = [u, g]
         \<or> filter (\<lambda>f. name f = x) (collectFields env t) = [g, u]"
    and "\<not> tag u" and "tag g"
    and "length (index g) \<le> length (index u)"
  shows "\<exists>found. typeFields env t = Inr found \<and> filter (\<lambda>f. name f = x) found = [g]"
proof -
  let ?L = "filter (\<lambda>f. name f = x) (collectFields env t)"
  have mem: "u \<in> set ?L \<and> g \<in> set ?L"
    using assms(2) by (metis list.set_intros(1) list.set_intros(2))
  then have nm: "name u = x" "name g = x" by simp_all
  from mem have "g \<in> set (collectFields env t)" by simp
  with assms(4) nm have x: "x \<noteq> ''''" using collectFields_tagged by blast
  from nm assms(3,4,5) have lt: "byName_key g < byName_key u"
    by (auto simp: byName_key_def)
  from assms(2) have "sort_key byName_key ?L = [g, u]"
  proof
    assume "?L = [u, g]"
    then have "sort_key byName_key ?L = sort_key byName_key [u, g]" by (rule arg_cong)
    with lt show ?thesis by (simp add: not_le)
  next
    assume "?L = [g, u]"
    then have "sort_key byName_key ?L = sort_key byName_key [g, u]" by (rule arg_cong)
    with lt show ?thesis by (simp add: less_imp_le)
  qed
  with assms(3,4) have "survivor (sort_key byName_key ?L) = [g]" by simp
  with x have "filter (\<lambda>f. name f = x) (resolveFields env t) = [g]"
    by (simp add: resolveFields_name)
  with assms(1) show ?thesis by (simp add: typeFields_def)
qed

section \<open>The context of a field\<close>

text \<open>
  Claim C10. The claim asks for an empty context on fields of the root type. The resolver
  stores the name of the containing type for every field, the root included (lemma
  \<open>root_fields_ctx\<close>): resolving \<open>Derived\<close> gives the field \<open>Name\<close> the context \<open>Derived\<close>, and
  the embedded \<open>ID\<close> the context \<open>Base\<close>.
\<close>

theorem root_context_not_empty:
  "typeFields scenarioEnv 3
     = Inr [\<lparr>ctx = ''Base'', name = ''id'', fname = ''ID'', tag = True, index = [0, 0], ftyp = 0\<rparr>,
            \<lparr>ctx = ''Derived'', name = ''name'', fname = ''Name'', tag = True, index = [1], ftyp = 1\<rparr>]"
  by (simp add: scenarioEnv_def resolver_defs Let_def)

section \<open>Errors of the row scan\<close>

text \<open>
  Claim C7. For every destination pointer, field list and row source, \<open>scan\<close> returns the
  error \<open>e\<close> exactly when \<open>Columns\<close> returns \<open>e\<close>, or \<open>Columns\<close> succeeds, the targets are built,
  and the row source's \<open>Scan\<close> returns \<open>e\<close> on them; the error is passed on as it is. A
  column without a bound field gets the discard target, and building the targets can only
  fail on a column that is bound to a field.
\<close>

theorem scan_error_passthrough:
  "((\<exists>d pr. scan h (VPtr a) found rows = Inr (Some e, d, pr)) \<longleftrightarrow>
      snd (rows_Columns rows) = Some e
      \<or> (snd (rows_Columns rows) = None
          \<and> (\<exists>ts pr. bindColumns (buildInfos found Map.empty) h a (fst (rows_Columns rows)) = Inr (ts, pr)
                     \<and> snd (rows_Scan rows ts) = Some e)))
   \<and> (bindColumns (buildInfos found Map.empty) h a cols = Inr (ts, pr) \<longrightarrow>
        length ts = length cols
        \<and> (\<forall>i<length cols. buildInfos found Map.empty (cols ! i) = None \<longrightarrow> ts ! i = Discard))
   \<and> (bindColumns (buildInfos found Map.empty) h a cols = Inl p \<longrightarrow>
        (\<exists>c\<in>set cols. \<exists>fi. buildInfos found Map.empty c = Some fi
                            \<and> FieldByIndex h a (index fi) = None))"
proof (intro conjI impI)
  show "(\<exists>d pr. scan h (VPtr a) found rows = Inr (Some e, d, pr)) \<longleftrightarrow>
      snd (rows_Columns rows) = Some e
      \<or> (snd (rows_Columns rows) = None
          \<and> (\<exists>ts pr. bindColumns (buildInfos found Map.empty) h a (fst (rows_Columns rows)) = Inr (ts, pr)
                     \<and> snd (rows_Scan rows ts) = Some e))"
    by (cases "rows_Columns rows")
       (auto simp: scan_def Elem_def Let_def split: sum.splits prod.splits option.splits)
next
  assume b: "bindColumns (buildInfos found Map.empty) h a cols = Inr (ts, pr)"
  from bindColumns_targets[OF b] show "length ts = length cols" by simp
  from bindColumns_targets[OF b]
  show "\<forall>i<length cols. buildInfos found Map.empty (cols ! i) = None \<longrightarrow> ts ! i = Discard"
    by simp
next
  assume "bindColumns (buildInfos found Map.empty) h a cols = Inl p"
  from bindColumns_panic[OF this]
  show "\<exists>c\<in>set cols. \<exists>fi. buildInfos found Map.empty c = Some fi
                            \<and> FieldByIndex h a (index fi) = None"
    by simp
qed

theorem scan_error_passthrough_witness:
  "(\<exists>d pr. scan [VStruct [VStruct [VInt 0], VStr '''']] (VPtr (Some (0, []))) (resolveFields scenarioEnv 3)
              (failingRows ''connection lost'') = Inr (Some ''connection lost'', d, pr))
   \<and> (\<exists>ts pr. bindColumns (buildInfos (resolveFields scenarioEnv 3) Map.empty)
                 [VStruct [VStruct [VInt 0], VStr '''']] (Some (0, [])) [''zz'', ''id''] = Inr (ts, pr)
              \<and> length ts = 2 \<and> ts ! 0 = Discard)
   \<and> (\<exists>c\<in>set [''id'']. \<exists>fi. buildInfos (resolveFields scenarioEnv 3) Map.empty c = Some fi
                            \<and> FieldByIndex [VStruct [VStruct [VInt 0], VStr '''']] None (index fi) = None)"
proof -
  have f: "resolveFields scenarioEnv 3
     = [\<lparr>ctx = ''Base'', name = ''id'', fname = ''ID'', tag = True, index = [0, 0], ftyp = 0\<rparr>,
        \<lparr>ctx = ''Derived'', name = ''name'', fname = ''Name'', tag = True, index = [1], ftyp = 1\<rparr>]"
    by (simp add: scenarioEnv_def resolver_defs Let_def)
  obtain ts pr where b: "bindColumns (buildInfos (resolveFields scenarioEnv 3) Map.empty)
             [VStruct [VStruct [VInt 0], VStr '''']] (Some (0, [])) [''zz'', ''id''] = Inr (ts, pr)"
    by (simp add: f FieldByIndex_def Field_def load_def)
  have p: "bindColumns (buildInfos (resolveFields scenarioEnv 3) Map.empty)
             [VStruct [VStruct [VInt 0], VStr '''']] None [''id'']
           = Inl FieldByIndexPanic"
    by (simp add: f FieldByIndex_def load_def)
  have u: "buildInfos (resolveFields scenarioEnv 3) Map.empty ([''zz'', ''id''] ! 0) = None"
    by (simp add: f)
  have c: "snd (rows_Columns (failingRows ''connection lost'')) = Some ''connection lost''"
    by (simp add: failingRows_def)
  from scan_error_passthrough [of "[VStruct [VStruct [VInt 0], VStr '''']]" "Some (0, [])"
      "resolveFields scenarioEnv 3" "failingRows ''connection lost''" "''connection lost''"
      "[''zz'', ''id'']" ts pr] b c u
  have 1: "\<exists>d pr. scan [VStruct [VStruct [VInt 0], VStr '''']] (VPtr (Some (0, []))) (resolveFields scenarioEnv 3)
              (failingRows ''connection lost'') = Inr (Some ''connection lost'', d, pr)"
    and 2: "length ts = 2 \<and> ts ! 0 = Discard"
    by simp_all
  have 3: "\<exists>c\<in>set [''id'']. \<exists>fi. buildInfos (resolveFields scenarioEnv 3) Map.empty c = Some fi
                            \<and> FieldByIndex [VStruct [VStruct [VInt 0], VStr '''']] None (index fi) = None"
    by (rule scan_error_passthrough [THEN conjunct2, THEN conjunct2, THEN mp, OF p])
  from 1 2 3 b show ?thesis by blast
qed

section \<open>The destination check\<close>

text \<open>
  Claim C8, as amended. \<open>Scan\<close> and \<open>Session.Scan\<close> panic with the error "dest must be pointer
  to struct" exactly when the destination is a non-nil interface value whose type is not
  a pointer to a struct. Whether the pointer is nil is not checked: when the type is a
  pointer to a struct no precondition failure is raised and the row scan proceeds on the
  resolved fields.
\<close>

theorem precondition_checks_type_only:
  "(Scan env h dest rows = Inl DestNotPointerToStruct
      \<longleftrightarrow> (\<exists>ty v. dest = Iface ty v \<and> \<not> pointerToStruct env ty))
   \<and> (fst (Session_Scan env s h dest rows) = Inl DestNotPointerToStruct
      \<longleftrightarrow> (\<exists>ty v. dest = Iface ty v \<and> \<not> pointerToStruct env ty))
   \<and> (pointerToStruct env ty \<longrightarrow>
        Scan env h (Iface ty v) rows = scan h v (resolveFields env (t_Elem (rtype_of env ty))) rows
        \<and> (\<exists>found. fst (Session_Scan env s h (Iface ty v) rows) = scan h v found rows))"
proof (intro conjI impI)
  show "Scan env h dest rows = Inl DestNotPointerToStruct
      \<longleftrightarrow> (\<exists>ty v. dest = Iface ty v \<and> \<not> pointerToStruct env ty)"
    by (cases dest)
       (auto simp: Scan_def pointerToStruct_def split: sum.splits dest: typeFields_panic scan_panic)
  show "fst (Session_Scan env s h dest rows) = Inl DestNotPointerToStruct
      \<longleftrightarrow> (\<exists>ty v. dest = Iface ty v \<and> \<not> pointerToStruct env ty)"
    by (cases dest)
       (auto simp: Session_Scan_def Session_fields_def pointerToStruct_def
             split: sum.splits option.splits prod.splits dest: typeFields_panic scan_panic)
next
  assume "pointerToStruct env ty"
  then show "Scan env h (Iface ty v) rows = scan h v (resolveFields env (t_Elem (rtype_of env ty))) rows"
    by (simp add: Scan_def pointerToStruct_def typeFields_def)
next
  assume "pointerToStruct env ty"
  then show "\<exists>found. fst (Session_Scan env s h (Iface ty v) rows) = scan h v found rows"
    by (auto simp: Session_Scan_def Session_fields_def pointerToStruct_def typeFields_def
             split: option.splits)
qed

theorem precondition_checks_type_only_witness:
  "Scan scenarioEnv [] (Iface 4 (VPtr None)) (fixedRows [''zz''] [VInt 1] :: unit rows)
     = scan [] (VPtr None) (resolveFields scenarioEnv (t_Elem (rtype_of scenarioEnv 4)))
         (fixedRows [''zz''] [VInt 1])
   \<and> Scan scenarioEnv [] (Iface 3 (VStruct [VStruct [VInt 0], VStr ''''])) (fixedRows [''zz''] [VInt 1] :: unit rows)
     = Inl DestNotPointerToStruct"
proof -
  have p: "pointerToStruct scenarioEnv 4"
    by (simp add: pointerToStruct_def scenarioEnv_def rtype_of_def pointerTo_def structType_def)
  have n: "\<not> pointerToStruct scenarioEnv 3"
    by (simp add: pointerToStruct_def scenarioEnv_def rtype_of_def pointerTo_def structType_def)
  from precondition_checks_type_only [of scenarioEnv "[]" "Iface 3 (VStruct [VStruct [VInt 0], VStr ''''])"
         "fixedRows [''zz''] [VInt 1] :: unit rows" Map.empty 4 "VPtr None"] p n
  show ?thesis by simp
qed

text \<open>
  The claim as stated fails for a nil pointer to a struct: it is not a non-null pointer,
  yet \<open>Scan\<close> raises nothing and returns nil when no reported column is bound to a field.
\<close>

theorem nil_pointer_counterexample:
  "Scan scenarioEnv [] (Iface 4 (VPtr None)) (fixedRows [''zz''] [VInt 1] :: unit rows)
     = Inr (None, [], [''sqlstruct: no field for zz''])"
  by (simp add: scenarioEnv_def resolver_defs scan_defs Let_def)

section \<open>The field cache of a session\<close>

text \<open>
  Claim C6. In a session whose entries were stored by the session itself, a scan into a
  pointer to the struct type \<open>T\<close> leaves an entry for \<open>T\<close> that equals what \<open>typeFields\<close> returns
  for \<open>T\<close>, and both \<open>Session.Scan\<close> and the uncached \<open>Scan\<close> run on that list. Every later
  request for \<open>T\<close> through that session returns the stored list and leaves the session as
  it is, whatever the resolver would compute then.
\<close>

theorem session_resolves_once:
  assumes "sessionOK env s"
    and "pointerToStruct env ty"
    and "Session_Scan env s h (Iface ty v) rows = (r, s1)"
  shows "\<exists>found. s1 (t_Elem (rtype_of env ty)) = Some found
           \<and> typeFields env (t_Elem (rtype_of env ty)) = Inr found
           \<and> r = scan h v found rows
           \<and> Scan env h (Iface ty v) rows = scan h v found rows
           \<and> (\<forall>env' h' v' rows'. Session_fields env' s1 (t_Elem (rtype_of env ty)) = (Inr found, s1)
                 \<and> (pointerToStruct env' ty \<and> t_Elem (rtype_of env' ty) = t_Elem (rtype_of env ty)
                      \<longrightarrow> Session_Scan env' s1 h' (Iface ty v') (rows' :: 'a rows) = (scan h' v' found rows', s1)))"
proof -
  let ?T = "t_Elem (rtype_of env ty)"
  from assms(2) have k: "t_Kind (rtype_of env ?T) = KStruct" by (simp add: pointerToStruct_def)
  then have tf: "typeFields env ?T = Inr (resolveFields env ?T)" by (simp add: typeFields_def)
  obtain fr s' where sf: "Session_fields env s ?T = (fr, s')" by (cases "Session_fields env s ?T")
  from Session_fields_ok[OF assms(1) sf] tf have fr: "fr = Inr (resolveFields env ?T)" by simp
  from sf fr have hit: "s' ?T = Some (resolveFields env ?T)"
    by (auto simp: Session_fields_def split: option.splits sum.splits)
  from assms(2,3) sf fr have r: "r = scan h v (resolveFields env ?T) rows" and s1: "s1 = s'"
    by (auto simp: Session_Scan_def pointerToStruct_def)
  have again: "\<And>env'. Session_fields env' s1 ?T = (Inr (resolveFields env ?T), s1)"
    using hit s1 by (simp add: Session_fields_hit)
  have "\<And>env' h' v' rows'. pointerToStruct env' ty \<and> t_Elem (rtype_of env' ty) = ?T
          \<longrightarrow> Session_Scan env' s1 h' (Iface ty v') (rows' :: 'a rows) = (scan h' v' (resolveFields env ?T) rows', s1)"
    using again by (auto simp: Session_Scan_def pointerToStruct_def)
  moreover have "Scan env h (Iface ty v) rows = scan h v (resolveFields env ?T) rows"
    using assms(2) tf by (simp add: Scan_def pointerToStruct_def)
  ultimately show ?thesis using hit s1 tf r again by blast
qed

theorem session_resolves_once_witness:
  "\<exists>found. snd (Session_Scan scenarioEnv NewSession [VStruct [VStruct [VInt 0], VStr '''']] (Iface 4 (VPtr (Some (0, []))))
                  (fixedRows [''name'', ''id''] [VStr ''bob'', VInt 7] :: unit rows)) 3 = Some found
     \<and> typeFields scenarioEnv 3 = Inr found
     \<and> Session_fields []
          (snd (Session_Scan scenarioEnv NewSession [VStruct [VStruct [VInt 0], VStr '''']] (Iface 4 (VPtr (Some (0, []))))
                  (fixedRows [''name'', ''id''] [VStr ''bob'', VInt 7] :: unit rows))) 3
        = (Inr found,
           snd (Session_Scan scenarioEnv NewSession [VStruct [VStruct [VInt 0], VStr '''']] (Iface 4 (VPtr (Some (0, []))))
                  (fixedRows [''name'', ''id''] [VStr ''bob'', VInt 7] :: unit rows)))"
proof -
  have p: "pointerToStruct scenarioEnv 4"
    by (simp add: pointerToStruct_def scenarioEnv_def rtype_of_def pointerTo_def structType_def)
  have e: "t_Elem (rtype_of scenarioEnv 4) = 3"
    by (simp add: scenarioEnv_def rtype_of_def pointerTo_def)
  obtain r s1 where s: "Session_Scan scenarioEnv NewSession [VStruct [VStruct [VInt 0], VStr '''']] (Iface 4 (VPtr (Some (0, []))))
                  (fixedRows [''name'', ''id''] [VStr ''bob'', VInt 7] :: unit rows) = (r, s1)"
    by (cases "Session_Scan scenarioEnv NewSession [VStruct [VStruct [VInt 0], VStr '''']] (Iface 4 (VPtr (Some (0, []))))
                  (fixedRows [''name'', ''id''] [VStr ''bob'', VInt 7] :: unit rows)")
  from session_resolves_once [OF NewSession_ok p s] obtain found where
    "s1 3 = Some found" "typeFields scenarioEnv 3 = Inr found"
    "Session_fields [] s1 3 = (Inr found, s1)"
    unfolding e by blast
  with s show ?thesis by auto
qed

section \<open>Fields without a column\<close>

text \<open>
  Claim C9, as amended. For every memory, destination pointer, field list and row source:
  when \<open>scan\<close> returns, with or without an error, a field of the list whose bound name is
  not among the reported columns is found at the same address and holds what it held
  before, provided no differently named field of the list aliases it in the destination
  (none contains the field or a place on the way to it, and none lies inside it).
\<close>

theorem unaliased_fields_unchanged:
  assumes "scan h (VPtr a) found rows = Inr (err, h', printed)"
    and "f \<in> set found"
    and "name f \<notin> set (fst (rows_Columns rows))"
    and "\<forall>g\<in>set found. name g \<noteq> name f \<longrightarrow>
           (\<forall>b. FieldByIndex h a (index g) = Some b \<longrightarrow> \<not> aliases h a (index f) b)"
  shows "FieldByIndex h' a (index f) = FieldByIndex h a (index f)
         \<and> (\<forall>af. FieldByIndex h a (index f) = Some af \<longrightarrow> load h' af = load h af)"
proof -
  obtain cols cerr where c: "rows_Columns rows = (cols, cerr)" by (cases "rows_Columns rows")
  show ?thesis
  proof (cases cerr)
    case (Some e)
    with assms(1) c show ?thesis by (auto simp: scan_def Elem_def)
  next
    case None
    with assms(1) c obtain ts writes where
      b: "bindColumns (buildInfos found Map.empty) h a cols = Inr (ts, printed)"
      and d: "h' = applyWrites h ts writes"
      by (auto simp: scan_def Elem_def Let_def split: sum.splits prod.splits)
    have "\<forall>b. FieldAddr b \<in> set ts \<longrightarrow> \<not> aliases h a (index f) b"
    proof (intro allI impI)
      fix q assume "FieldAddr q \<in> set ts"
      from bindColumns_addr[OF b this] obtain col g where
        col: "col \<in> set cols" "buildInfos found Map.empty col = Some g"
             "FieldByIndex h a (index g) = Some q" by blast
      from buildInfos_Some[OF col(2)] have g: "g \<in> set found" "name g = col" by auto
      with col(1) assms(3) c have "name g \<noteq> name f" by auto
      with assms(4) g(1) col(3) show "\<not> aliases h a (index f) q" by blast
    qed
    from applyWrites_frame[OF this, of writes] d show ?thesis by simp
  qed
qed

text \<open>
  An instance: a \<open>Root\<close> whose embedded pointer points at a variable of its own. The column
  \<open>A\<close> is stored in that variable and the field bound to \<open>f\<close> keeps its value.
\<close>

theorem unaliased_fields_unchanged_witness:
  "scan [VStruct [VStruct [VInt 1], VPtr (Some (1, []))], VStruct [VInt 2]] (VPtr (Some (0, [])))
        (resolveFields aliasEnv 4) (fixedRows [''A''] [VInt 9] :: unit rows)
     = Inr (None, [VStruct [VStruct [VInt 1], VPtr (Some (1, []))], VStruct [VInt 9]], [])
   \<and> FieldByIndex [VStruct [VStruct [VInt 1], VPtr (Some (1, []))], VStruct [VInt 9]] (Some (0, [])) [0]
     = FieldByIndex [VStruct [VStruct [VInt 1], VPtr (Some (1, []))], VStruct [VInt 2]] (Some (0, [])) [0]
   \<and> load [VStruct [VStruct [VInt 1], VPtr (Some (1, []))], VStruct [VInt 9]] (0, [0])
     = load [VStruct [VStruct [VInt 1], VPtr (Some (1, []))], VStruct [VInt 2]] (0, [0])"
proof -
  let ?h = "[VStruct [VStruct [VInt 1], VPtr (Some (1, []))], VStruct [VInt 2]]"
  let ?f = "\<lparr>ctx = ''Root'', name = ''f'', fname = ''F'', tag = True, index = [0], ftyp = 2\<rparr>"
  have f: "resolveFields aliasEnv 4
     = [?f, \<lparr>ctx = ''S'', name = ''A'', fname = ''A'', tag = False, index = [1, 0], ftyp = 0\<rparr>]"
    by (simp add: aliasEnv_def resolver_defs Let_def)
  have s: "scan ?h (VPtr (Some (0, []))) (resolveFields aliasEnv 4) (fixedRows [''A''] [VInt 9] :: unit rows)
     = Inr (None, [VStruct [VStruct [VInt 1], VPtr (Some (1, []))], VStruct [VInt 9]], [])"
    by (simp add: f scan_defs)
  have m: "?f \<in> set (resolveFields aliasEnv 4)" by (simp add: f)
  have n: "name ?f \<notin> set (fst (rows_Columns (fixedRows [''A''] [VInt 9] :: unit rows)))"
    by (simp add: fixedRows_def)
  have u: "\<forall>g\<in>set (resolveFields aliasEnv 4). name g \<noteq> name ?f \<longrightarrow>
             (\<forall>b. FieldByIndex ?h (Some (0, [])) (index g) = Some b
                   \<longrightarrow> \<not> aliases ?h (Some (0, [])) (index ?f) b)"
    by (simp add: f FieldByIndex_def Field_def load_def aliases_def covers_def)
  have a: "FieldByIndex ?h (Some (0, [])) (index ?f) = Some (0, [0])"
    by (simp add: FieldByIndex_def Field_def load_def)
  from unaliased_fields_unchanged [OF s m n u] a s show ?thesis by simp
qed

text \<open>
  The claim as stated fails when the embedded pointer of the \<open>Root\<close> points at the \<open>Root\<close>'s
  own field \<open>F\<close> (\<open>r.S = &r.F\<close>): the column \<open>A\<close> is stored through \<open>&r.S.A\<close>, which is \<open>&r.F.A\<close>, and
  the field bound to \<open>f\<close> changes from \<open>{1}\<close> to \<open>{9}\<close> though no column \<open>f\<close> is reported.
\<close>

theorem aliased_field_counterexample:
  "typeFields aliasEnv 4
     = Inr [\<lparr>ctx = ''Root'', name = ''f'', fname = ''F'', tag = True, index = [0], ftyp = 2\<rparr>,
            \<lparr>ctx = ''S'', name = ''A'', fname = ''A'', tag = False, index = [1, 0], ftyp = 0\<rparr>]
   \<and> Scan aliasEnv [VStruct [VStruct [VInt 1], VPtr (Some (0, [0]))]] (Iface 5 (VPtr (Some (0, []))))
        (fixedRows [''A''] [VInt 9] :: unit rows)
     = Inr (None, [VStruct [VStruct [VInt 9], VPtr (Some (0, [0]))]], [])
   \<and> FieldByIndex [VStruct [VStruct [VInt 1], VPtr (Some (0, [0]))]] (Some (0, [])) [0] = Some (0, [0])
   \<and> load [VStruct [VStruct [VInt 1], VPtr (Some (0, [0]))]] (0, [0]) = Some (VStruct [VInt 1])
   \<and> load [VStruct [VStruct [VInt 9], VPtr (Some (0, [0]))]] (0, [0]) = Some (VStruct [VInt 9])"
  by (simp add: aliasEnv_def resolver_defs scan_defs Let_def)

end
